theory Spec2Isabelle
  imports Main
begin

section \<open>Data model of \<^verbatim>\<open>game.py\<close>\<close>

text \<open>
  \<^verbatim>\<open>class Player(IntEnum): X = 0; O = 1\<close>. The constructors are written \<open>Player_X\<close> and
  \<open>Player_O\<close>, as the source's \<^verbatim>\<open>Player.X\<close> and \<^verbatim>\<open>Player.O\<close>. The only arithmetic the
  program does on a player is \<^verbatim>\<open>Player(1 - p)\<close>, which maps X to O and O to X.
\<close>

datatype Player = Player_X | Player_O

fun Player_1_minus :: "Player \<Rightarrow> Player" where
  "Player_1_minus Player_X = Player_O"
| "Player_1_minus Player_O = Player_X"

text \<open>The exceptions the modelled code can raise.\<close>

datatype error = IndexError | ValueError | AttributeError

text \<open>
  \<^verbatim>\<open>Board = list[list[Optional[Player]]]\<close>: a list of rows, a cell is \<open>None\<close> when empty.
\<close>

type_synonym Board = "Player option list list"

text \<open>
  \<^verbatim>\<open>filled_equal\<close>: the loop compares every item with \<^verbatim>\<open>x[0]\<close>; on the empty list the
  body never runs and the result is \<open>True\<close>.
\<close>

fun filled_equal_loop :: "'a option \<Rightarrow> 'a option list \<Rightarrow> bool" where
  "filled_equal_loop x0 [] = True"
| "filled_equal_loop x0 (item # rest) =
     (if item = None then False
      else if item \<noteq> x0 then False
      else filled_equal_loop x0 rest)"

definition filled_equal :: "'a option list \<Rightarrow> bool" where
  "filled_equal x = (case x of [] \<Rightarrow> True | x0 # _ \<Rightarrow> filled_equal_loop x0 x)"

text \<open>
  \<^verbatim>\<open>class GameContext\<close>: the fields \<^verbatim>\<open>moves\<close>, \<^verbatim>\<open>board\<close>, \<^verbatim>\<open>turn\<close>, and the value that
  \<^verbatim>\<open>__init__\<close> gives them.
\<close>

record GameContext =
  moves :: int
  board :: Board
  turn :: Player

definition GameContext_init :: GameContext where
  "GameContext_init =
     \<lparr> moves = 0,
       board = map (\<lambda>_. map (\<lambda>_. None) [0..<3]) [0..<3],
       turn = Player_O \<rparr>"

text \<open>
  \<^verbatim>\<open>possible_moves\<close>: the generator runs over \<^verbatim>\<open>i\<close> then \<^verbatim>\<open>j\<close>, so the tuple is in
  row-major order.
\<close>

definition possible_moves :: "GameContext \<Rightarrow> (int \<times> int) list" where
  "possible_moves c =
     concat (map (\<lambda>i. concat (map (\<lambda>j. if board c ! i ! j = None then [(int i, int j)] else [])
                                   [0..<3]))
                 [0..<3])"

text \<open>
  Python list indexing: an index \<open>i\<close> with \<open>0 \<le> i < n\<close> names position \<open>i\<close>, a negative
  index \<open>-n \<le> i < 0\<close> names position \<open>n + i\<close>, and every other index raises
  \<^verbatim>\<open>IndexError\<close>.
\<close>

definition py_index :: "nat \<Rightarrow> int \<Rightarrow> nat option" where
  "py_index n i =
     (if 0 \<le> i \<and> i < int n then Some (nat i)
      else if - int n \<le> i \<and> i < 0 then Some (nat (int n + i))
      else None)"

text \<open>
  \<^verbatim>\<open>GameContext.update\<close> mutates the object it is called on. The model returns the
  exception raised, if any, together with the fields of the object after the call: the
  counter is incremented before the board is indexed, so it stays incremented when the
  indexing raises.
\<close>

definition update :: "GameContext \<Rightarrow> int \<Rightarrow> int \<Rightarrow> error option \<times> GameContext" where
  "update c row col =
     (let c1 = c\<lparr>moves := moves c + 1\<rparr> in
      case py_index (length (board c1)) row of
        None \<Rightarrow> (Some IndexError, c1)
      | Some i \<Rightarrow>
          (case py_index (length (board c1 ! i)) col of
             None \<Rightarrow> (Some IndexError, c1)
           | Some j \<Rightarrow>
               (let c2 = c1\<lparr>board := (board c1)[i := (board c1 ! i)[j := Some (turn c1)]]\<rparr>
                in (None, c2\<lparr>turn := Player_1_minus (turn c2)\<rparr>))))"

text \<open>
  \<^verbatim>\<open>zip(*self.board)\<close> followed by \<^verbatim>\<open>map(list, ...)\<close>: the columns, cut at the shortest
  row; no row gives no column.
\<close>

definition zip_star :: "'a list list \<Rightarrow> 'a list list" where
  "zip_star rows =
     (case rows of
        [] \<Rightarrow> []
      | r # rs \<Rightarrow> map (\<lambda>j. map (\<lambda>row. row ! j) rows)
                     [0..<fold (\<lambda>row n. min (length row) n) rs (length r)])"

text \<open>
  The two \<^verbatim>\<open>for\<close> loops of \<^verbatim>\<open>is_game_over\<close>: the first line of the list that is
  filled with equal marks decides, and its first cell is the winner.
\<close>

fun first_filled :: "Player option list list \<Rightarrow> Player option option" where
  "first_filled [] = None"
| "first_filled (l # ls) = (if filled_equal l then Some (l ! 0) else first_filled ls)"

definition is_game_over :: "GameContext \<Rightarrow> bool \<times> Player option" where
  "is_game_over c =
     (case first_filled (board c) of
        Some w \<Rightarrow> (True, w)
      | None \<Rightarrow>
         (case first_filled (zip_star (board c)) of
            Some w \<Rightarrow> (True, w)
          | None \<Rightarrow>
             (let diag1 = map (\<lambda>i. board c ! i ! i) [0..<3];
                  diag2 = map (\<lambda>i. board c ! (2 - i) ! i) [0..<3]
              in if filled_equal diag1 then (True, diag1 ! 0)
                 else if filled_equal diag2 then (True, diag2 ! 0)
                 else if moves c = 9 then (True, None)
                 else (False, None))))"

section \<open>The minimax bot\<close>

text \<open>
  \<^verbatim>\<open>class MinimaxBot(Bot)\<close>: the fields \<^verbatim>\<open>player\<close> and \<^verbatim>\<open>max_depth\<close> set by
  \<^verbatim>\<open>__init__\<close>, and the attribute \<^verbatim>\<open>move\<close> that only \<^verbatim>\<open>minimax\<close> assigns: it is
  \<open>None\<close> as long as the object has no such attribute.
\<close>

record Bot =
  player :: Player
  max_depth :: int
  move :: "(int \<times> int) option"

text \<open>
  The search copies and mutates \<^verbatim>\<open>GameContext\<close> objects, so the objects live in a
  store: a list of their field values, an object's address being its position.
  \<^verbatim>\<open>deepcopy\<close> allocates a new object with the fields of the copied one (the rows of
  a board are copied with it, so no two objects share a row), and \<^verbatim>\<open>update\<close> writes
  to the object it is called on.
\<close>

type_synonym heap = "GameContext list"

definition deepcopy :: "heap \<Rightarrow> nat \<Rightarrow> nat \<times> heap" where
  "deepcopy h a = (length h, h @ [h ! a])"

definition update_at :: "heap \<Rightarrow> nat \<Rightarrow> int \<Rightarrow> int \<Rightarrow> error option \<times> heap" where
  "update_at h a row col = (case update (h ! a) row col of (e, c) \<Rightarrow> (e, h[a := c]))"

text \<open>
  \<^verbatim>\<open>max(pairs, key=itemgetter(0))\<close> and \<^verbatim>\<open>min(pairs, key=itemgetter(0))\<close>: the first
  pair is the candidate, a later pair replaces it only when its key is strictly
  greater (strictly less), and an empty sequence raises \<^verbatim>\<open>ValueError\<close>.
\<close>

fun py_max_loop :: "(int \<times> 'a) \<Rightarrow> (int \<times> 'a) list \<Rightarrow> (int \<times> 'a)" where
  "py_max_loop best [] = best"
| "py_max_loop best (x # xs) = py_max_loop (if fst x > fst best then x else best) xs"

fun py_max :: "(int \<times> 'a) list \<Rightarrow> error + (int \<times> 'a)" where
  "py_max [] = Inl ValueError"
| "py_max (x # xs) = Inr (py_max_loop x xs)"

fun py_min_loop :: "(int \<times> 'a) \<Rightarrow> (int \<times> 'a) list \<Rightarrow> (int \<times> 'a)" where
  "py_min_loop best [] = best"
| "py_min_loop best (x # xs) = py_min_loop (if fst x < fst best then x else best) xs"

fun py_min :: "(int \<times> 'a) list \<Rightarrow> error + (int \<times> 'a)" where
  "py_min [] = Inl ValueError"
| "py_min (x # xs) = Inr (py_min_loop x xs)"

text \<open>
  \<^verbatim>\<open>MinimaxBot.minimax\<close>. The recursion goes through objects of the store, so that it
  ends is a theorem and not part of the definition: the first argument bounds the
  depth of the recursion, and \<open>None\<close> is the answer of a call that would go deeper.
  Otherwise the result is the exception raised or the score returned, with the bot and
  the store after the call.

  \<^verbatim>\<open>minimax_loop\<close> is the \<^verbatim>\<open>for move in moves\<close> loop; it threads the list
  \<^verbatim>\<open>scores\<close>, the bot and the store. After the loop the variable \<^verbatim>\<open>move\<close> still
  holds the last element of \<^verbatim>\<open>moves\<close>; the \<^verbatim>\<open>max\<close> branch rebinds it, the \<^verbatim>\<open>min\<close>
  branch does not.
\<close>

fun minimax :: "nat \<Rightarrow> Bot \<Rightarrow> heap \<Rightarrow> nat \<Rightarrow> int \<Rightarrow> (error + int \<times> Bot \<times> heap) option"
and minimax_loop :: "nat \<Rightarrow> Bot \<Rightarrow> heap \<Rightarrow> nat \<Rightarrow> int \<Rightarrow> (int \<times> int) list \<Rightarrow> int list
                      \<Rightarrow> (error + int list \<times> Bot \<times> heap) option"
where
  "minimax 0 self h curr_ctx depth = None"
| "minimax (Suc n) self h curr_ctx depth =
     (case is_game_over (h ! curr_ctx) of (over, winner) \<Rightarrow>
      if over \<and> winner = Some (player self) then Some (Inr (10, self, h))
      else if over \<and> winner = Some (Player_1_minus (player self)) then Some (Inr (- 10, self, h))
      else if over \<and> winner = None then Some (Inr (0, self, h))
      else
        (let mvs = possible_moves (h ! curr_ctx) in
         case minimax_loop n self h curr_ctx depth mvs [] of
           None \<Rightarrow> None
         | Some (Inl e) \<Rightarrow> Some (Inl e)
         | Some (Inr (scores, self1, h1)) \<Rightarrow>
             (if turn (h1 ! curr_ctx) = player self1 then
                (case py_max (zip scores mvs) of
                   Inl e \<Rightarrow> Some (Inl e)
                 | Inr (score, mv) \<Rightarrow>
                     Some (Inr (score,
                       (if depth = max_depth self1 then self1\<lparr>move := Some mv\<rparr> else self1), h1)))
              else
                (case py_min (zip scores mvs) of
                   Inl e \<Rightarrow> Some (Inl e)
                 | Inr (score, _) \<Rightarrow>
                     Some (Inr (score,
                       (if depth = max_depth self1 then self1\<lparr>move := Some (last mvs)\<rparr>
                        else self1), h1))))))"
| "minimax_loop n self h curr_ctx depth [] scores = Some (Inr (scores, self, h))"
| "minimax_loop n self h curr_ctx depth (mv # rest) scores =
     (case deepcopy h curr_ctx of (new_ctx, h1) \<Rightarrow>
      (case update_at h1 new_ctx (fst mv) (snd mv) of
         (Some e, _) \<Rightarrow> Some (Inl e)
       | (None, h2) \<Rightarrow>
           (case minimax n self h2 new_ctx (depth - 1) of
              None \<Rightarrow> None
            | Some (Inl e) \<Rightarrow> Some (Inl e)
            | Some (Inr (s, self', h3)) \<Rightarrow>
                minimax_loop n self' h3 curr_ctx depth rest (scores @ [s]))))"

text \<open>
  \<^verbatim>\<open>MinimaxBot.predict_move\<close>: reading \<^verbatim>\<open>self.move\<close> raises \<^verbatim>\<open>AttributeError\<close> when
  the attribute was never assigned.
\<close>

definition predict_move :: "nat \<Rightarrow> Bot \<Rightarrow> heap \<Rightarrow> nat \<Rightarrow> (error + (int \<times> int) \<times> Bot \<times> heap) option" where
  "predict_move n self h curr_ctx =
     (case minimax n self h curr_ctx (max_depth self) of
        None \<Rightarrow> None
      | Some (Inl e) \<Rightarrow> Some (Inl e)
      | Some (Inr (_, self', h')) \<Rightarrow>
          (case move self' of
             None \<Rightarrow> Some (Inl AttributeError)
           | Some mv \<Rightarrow> Some (Inr (mv, self', h'))))"

section \<open>The application\<close>

text \<open>
  Of \<^verbatim>\<open>class Application\<close> the model keeps what the game logic reads and writes: the
  store of \<^verbatim>\<open>GameContext\<close> objects, the address \<^verbatim>\<open>ctx\<close> of the current one, the
  bot, the user's player, the flag \<^verbatim>\<open>accept_user_input\<close> and the text of
  \<^verbatim>\<open>text_area\<close>. The window, the canvas and \<^verbatim>\<open>update_canvas\<close>, which only draws,
  are left out.
\<close>

record Application =
  heap :: heap
  ctx :: nat
  bot :: Bot
  user_player :: Player
  accept_user_input :: bool
  text_area :: string

text \<open>\<^verbatim>\<open>chars\<close>, and the message shown when the game has ended.\<close>

fun chars :: "Player option \<Rightarrow> string" where
  "chars (Some Player_X) = ''X''"
| "chars (Some Player_O) = ''O''"
| "chars None = '' ''"

definition message :: "Player option \<Rightarrow> string" where
  "message winning_player =
     (if winning_player = None then ''Draw!'' else chars winning_player @ '' wins!'')"

text \<open>
  \<^verbatim>\<open>Application.reset_game\<close>. The three random draws are arguments: \<open>user\<close> is the
  value of \<^verbatim>\<open>Player(randint(0, 1))\<close>, \<open>row\<close> and \<open>col\<close> are the values of the two
  \<^verbatim>\<open>randint(0, 2)\<close>, which are drawn only when the user is X.
\<close>

definition reset_game :: "Application \<Rightarrow> Player \<Rightarrow> int \<Rightarrow> int \<Rightarrow> error + Application" where
  "reset_game app user row col =
     (let app1 = app\<lparr>heap := heap app @ [GameContext_init], ctx := length (heap app)\<rparr>;
          app2 = app1\<lparr>user_player := user\<rparr>;
          app3 = app2\<lparr>bot := \<lparr>player = Player_1_minus (user_player app2), max_depth = 8,
                                move = None\<rparr>\<rparr>
      in if user_player app3 = Player_X then
           (case update_at (heap app3) (ctx app3) row col of
              (Some e, _) \<Rightarrow> Inl e
            | (None, h) \<Rightarrow>
                Inr (app3\<lparr>heap := h, accept_user_input := True, text_area := ''Tic-tac-toe!''\<rparr>))
         else Inr (app3\<lparr>accept_user_input := True, text_area := ''Tic-tac-toe!''\<rparr>))"

text \<open>
  \<^verbatim>\<open>mouse_callback\<close>, from the point where \<^verbatim>\<open>row\<close> and \<^verbatim>\<open>col\<close> have been computed
  from the pixel coordinates of the click. The first argument is the recursion bound
  handed to the bot's search.
\<close>

definition game_over_update :: "Application \<Rightarrow> Application" where
  "game_over_update app =
     (if fst (is_game_over (heap app ! ctx app)) then
        app\<lparr>accept_user_input := False,
            text_area := message (snd (is_game_over (heap app ! ctx app)))\<rparr>
      else app)"

definition mouse_callback :: "nat \<Rightarrow> Application \<Rightarrow> int \<Rightarrow> int \<Rightarrow> (error + Application) option" where
  "mouse_callback n app row col =
     (if \<not> (0 \<le> row \<and> row < 3) \<or> \<not> (0 \<le> col \<and> col < 3) then Some (Inr app)
      else if accept_user_input app \<and> board (heap app ! ctx app) ! nat row ! nat col = None then
        (case update_at (heap app) (ctx app) row col of
           (Some e, _) \<Rightarrow> Some (Inl e)
         | (None, h1) \<Rightarrow>
             (let app1 = app\<lparr>heap := h1\<rparr> in
              if fst (is_game_over (heap app1 ! ctx app1)) then Some (Inr (game_over_update app1))
              else
                (case predict_move n (bot app1) (heap app1) (ctx app1) of
                   None \<Rightarrow> None
                 | Some (Inl e) \<Rightarrow> Some (Inl e)
                 | Some (Inr ((r, c), bot', h2)) \<Rightarrow>
                     (case update_at h2 (ctx app1) r c of
                        (Some e, _) \<Rightarrow> Some (Inl e)
                      | (None, h3) \<Rightarrow>
                          Some (Inr (game_over_update (app1\<lparr>bot := bot', heap := h3\<rparr>)))))))
      else Some (Inr app))"

section \<open>Notions used to state the properties\<close>

text \<open>
  Every \<^verbatim>\<open>GameContext\<close> the program creates has a board of three rows of three
  cells: \<^verbatim>\<open>__init__\<close> builds one, and \<^verbatim>\<open>update\<close> keeps the shape.
\<close>

definition wf_board :: "Board \<Rightarrow> bool" where
  "wf_board b = (length b = 3 \<and> list_all (\<lambda>r. length r = 3) b)"

text \<open>
  The eight lines of the board as lists of coordinates: three rows, three columns, the
  two diagonals. A player has a line when its three cells hold that player's mark.
\<close>

definition line_cells :: "(nat \<times> nat) list list" where
  "line_cells =
     [[(0,0),(0,1),(0,2)], [(1,0),(1,1),(1,2)], [(2,0),(2,1),(2,2)],
      [(0,0),(1,0),(2,0)], [(0,1),(1,1),(2,1)], [(0,2),(1,2),(2,2)],
      [(0,0),(1,1),(2,2)], [(2,0),(1,1),(0,2)]]"

definition line_won :: "Board \<Rightarrow> Player \<Rightarrow> (nat \<times> nat) list \<Rightarrow> bool" where
  "line_won b p l = list_all (\<lambda>(i, j). b ! i ! j = Some p) l"

definition has_line :: "Board \<Rightarrow> Player \<Rightarrow> bool" where
  "has_line b p = list_ex (line_won b p) line_cells"

definition all3 :: "Player \<Rightarrow> Player option \<Rightarrow> Player option \<Rightarrow> Player option \<Rightarrow> bool" where
  "all3 p a b c = (a = Some p \<and> b = Some p \<and> c = Some p)"

text \<open>
  The number of non-empty cells of a board, and the contexts in which \<^verbatim>\<open>moves\<close> is
  that number.
\<close>

definition occupied :: "Board \<Rightarrow> nat" where
  "occupied b = length (filter (\<lambda>x. x \<noteq> None) (concat b))"

definition counted :: "GameContext \<Rightarrow> bool" where
  "counted c = (wf_board (board c) \<and> moves c = int (occupied (board c)))"

text \<open>
  The contexts reached from the one \<^verbatim>\<open>__init__\<close> creates by updates on empty cells
  of the board.
\<close>

inductive reachable :: "GameContext \<Rightarrow> bool" where
  reachable_init: "reachable GameContext_init"
| reachable_step:
    "reachable c \<Longrightarrow> i < 3 \<Longrightarrow> j < 3 \<Longrightarrow> board c ! i ! j = None
       \<Longrightarrow> reachable (snd (update c (int i) (int j)))"

definition ctx_one_move :: GameContext where
  "ctx_one_move = snd (update GameContext_init 1 1)"

definition app_one_move :: Application where
  "app_one_move =
     \<lparr> heap = [ctx_one_move], ctx = 0,
       bot = \<lparr>player = Player_X, max_depth = 8, move = None\<rparr>,
       user_player = Player_O, accept_user_input = True, text_area = ''Tic-tac-toe!'' \<rparr>"

definition ctx_row_O :: GameContext where
  "ctx_row_O =
     \<lparr> moves = 5,
       board = [[Some Player_O, Some Player_O, Some Player_O],
                [Some Player_X, Some Player_X, None],
                [None, None, None]],
       turn = Player_X \<rparr>"

section \<open>Boards cell by cell\<close>

lemma len3E:
  assumes "length xs = 3"
  obtains x y z where "xs = [x, y, z]"
proof -
  from assms obtain x r1 where 1: "xs = x # r1" "length r1 = 2" by (cases xs) auto
  then obtain y r2 where 2: "r1 = y # r2" "length r2 = 1" by (cases r1) auto
  then obtain z where 3: "r2 = [z]" by (cases r2) auto
  with 1 2 that show thesis by simp
qed

lemma wf_boardE:
  assumes "wf_board b"
  obtains a0 a1 a2 a3 a4 a5 a6 a7 a8 where "b = [[a0,a1,a2],[a3,a4,a5],[a6,a7,a8]]"
proof -
  from assms have "length b = 3" by (simp add: wf_board_def)
  then obtain r0 r1 r2 where b: "b = [r0,r1,r2]" by (rule len3E)
  with assms have l: "length r0 = 3" "length r1 = 3" "length r2 = 3"
    by (simp_all add: wf_board_def)
  from l(1) obtain a0 a1 a2 where r0: "r0 = [a0,a1,a2]" by (rule len3E)
  from l(2) obtain a3 a4 a5 where r1: "r1 = [a3,a4,a5]" by (rule len3E)
  from l(3) obtain a6 a7 a8 where r2: "r2 = [a6,a7,a8]" by (rule len3E)
  show thesis using that[of a0 a1 a2 a3 a4 a5 a6 a7 a8] b r0 r1 r2 by simp
qed

lemma wf_board_cells [simp]: "wf_board [[a0,a1,a2],[a3,a4,a5],[a6,a7,a8]]"
  by (simp add: wf_board_def)

lemma upt3: "[0..<3] = [0,1,2]"
  by (simp add: upt_rec)

lemma filled_equal3: "filled_equal [a, b, c] = (a \<noteq> None \<and> b = a \<and> c = a)"
  by (auto simp: filled_equal_def)

lemma zip_star3:
  "zip_star [[a0,a1,a2],[a3,a4,a5],[a6,a7,a8]] = [[a0,a3,a6],[a1,a4,a7],[a2,a5,a8]]"
  by (simp add: zip_star_def upt3)

text \<open>
  The checks of \<^verbatim>\<open>is_game_over\<close> in the order the code makes them. The conditions
  stay folded, so that the simplifier does not split on their conjuncts.
\<close>

lemma igo_chain:
  "is_game_over \<lparr>moves = m, board = [[a0,a1,a2],[a3,a4,a5],[a6,a7,a8]], turn = t\<rparr> =
    (if filled_equal [a0,a1,a2] then (True, a0)
     else if filled_equal [a3,a4,a5] then (True, a3)
     else if filled_equal [a6,a7,a8] then (True, a6)
     else if filled_equal [a0,a3,a6] then (True, a0)
     else if filled_equal [a1,a4,a7] then (True, a1)
     else if filled_equal [a2,a5,a8] then (True, a2)
     else if filled_equal [a0,a4,a8] then (True, a0)
     else if filled_equal [a6,a4,a2] then (True, a6)
     else if m = 9 then (True, None) else (False, None))"
  by (simp add: is_game_over_def zip_star3 upt3 Let_def)

lemma has_line_cells:
  "has_line [[a0,a1,a2],[a3,a4,a5],[a6,a7,a8]] p =
     (all3 p a0 a1 a2 \<or> all3 p a3 a4 a5 \<or> all3 p a6 a7 a8 \<or>
      all3 p a0 a3 a6 \<or> all3 p a1 a4 a7 \<or> all3 p a2 a5 a8 \<or>
      all3 p a0 a4 a8 \<or> all3 p a6 a4 a2)"
  by (simp add: has_line_def line_cells_def line_won_def all3_def)

lemma filled_equal_all3: "filled_equal [a, b, c] = (\<exists>p. all3 p a b c)"
  by (cases a) (auto simp: filled_equal3 all3_def)

lemma filled_equal_first: "filled_equal [a, b, c] \<Longrightarrow> \<exists>p. a = Some p \<and> all3 p a b c"
  by (cases a) (auto simp: filled_equal3 all3_def)

lemma igo_winner_line:
  assumes "is_game_over \<lparr>moves = m, board = [[a0,a1,a2],[a3,a4,a5],[a6,a7,a8]], turn = t\<rparr>
             = (ov, Some p)"
  shows "has_line [[a0,a1,a2],[a3,a4,a5],[a6,a7,a8]] p"
  using assms unfolding igo_chain has_line_cells
  by (auto split: if_splits dest!: filled_equal_first)

lemma igo_line_winner:
  assumes "has_line [[a0,a1,a2],[a3,a4,a5],[a6,a7,a8]] p"
  shows "\<exists>q. is_game_over \<lparr>moves = m, board = [[a0,a1,a2],[a3,a4,a5],[a6,a7,a8]], turn = t\<rparr>
               = (True, Some q)"
proof -
  have *: "filled_equal [a, b, c] \<Longrightarrow> \<exists>q. a = Some q" for a b c :: "Player option"
    by (cases a) (auto simp: filled_equal3)
  have "filled_equal [a0,a1,a2] \<or> filled_equal [a3,a4,a5] \<or> filled_equal [a6,a7,a8] \<or>
        filled_equal [a0,a3,a6] \<or> filled_equal [a1,a4,a7] \<or> filled_equal [a2,a5,a8] \<or>
        filled_equal [a0,a4,a8] \<or> filled_equal [a6,a4,a2]"
    using assms unfolding has_line_cells filled_equal_all3 by blast
  then show ?thesis unfolding igo_chain using * by (auto split: if_splits)
qed

lemma igo_no_line:
  assumes "\<forall>p. \<not> has_line [[a0,a1,a2],[a3,a4,a5],[a6,a7,a8]] p"
  shows "is_game_over \<lparr>moves = m, board = [[a0,a1,a2],[a3,a4,a5],[a6,a7,a8]], turn = t\<rparr> =
           (if m = 9 then (True, None) else (False, None))"
proof -
  have "\<not> filled_equal [a0,a1,a2]" "\<not> filled_equal [a3,a4,a5]" "\<not> filled_equal [a6,a7,a8]"
        "\<not> filled_equal [a0,a3,a6]" "\<not> filled_equal [a1,a4,a7]" "\<not> filled_equal [a2,a5,a8]"
        "\<not> filled_equal [a0,a4,a8]" "\<not> filled_equal [a6,a4,a2]"
    using assms unfolding has_line_cells filled_equal_all3 by blast+
  then show ?thesis unfolding igo_chain by simp
qed

text \<open>The same facts for any context with a well-formed board.\<close>

lemma ctx_cellsE:
  assumes "wf_board (board c)"
  obtains m t a0 a1 a2 a3 a4 a5 a6 a7 a8
  where "c = \<lparr>moves = m, board = [[a0,a1,a2],[a3,a4,a5],[a6,a7,a8]], turn = t\<rparr>"
proof -
  from assms obtain a0 a1 a2 a3 a4 a5 a6 a7 a8
    where b: "board c = [[a0,a1,a2],[a3,a4,a5],[a6,a7,a8]]" by (rule wf_boardE)
  have "c = \<lparr>moves = moves c, board = board c, turn = turn c\<rparr>" by simp
  with b that show thesis by metis
qed

lemma is_game_over_winner_line:
  "wf_board (board c) \<Longrightarrow> is_game_over c = (ov, Some p) \<Longrightarrow> has_line (board c) p"
  by (erule ctx_cellsE) (auto dest: igo_winner_line)

lemma is_game_over_line_winner:
  "wf_board (board c) \<Longrightarrow> has_line (board c) p \<Longrightarrow> \<exists>q. is_game_over c = (True, Some q)"
  by (erule ctx_cellsE) (auto dest: igo_line_winner)

lemma is_game_over_no_line:
  "wf_board (board c) \<Longrightarrow> \<forall>p. \<not> has_line (board c) p \<Longrightarrow>
     is_game_over c = (if moves c = 9 then (True, None) else (False, None))"
  by (erule ctx_cellsE) (simp add: igo_no_line)

section \<open>The outcome of a position\<close>

text \<open>
  C2. On a board of three rows of three cells, \<^verbatim>\<open>is_game_over\<close> answers
  \<open>(True, Some q)\<close> exactly when some row, column or diagonal holds three equal marks,
  and then \<open>q\<close> is the mark of such a line; it answers \<open>(True, None)\<close> when no line is
  complete and \<^verbatim>\<open>moves\<close> is 9, and \<open>(False, None)\<close> when no line is complete and
  \<^verbatim>\<open>moves\<close> is not 9.
\<close>

theorem is_game_over_spec:
  assumes "wf_board (board c)"
  shows "((\<exists>p. has_line (board c) p) \<longrightarrow>
            (\<exists>q. is_game_over c = (True, Some q) \<and> has_line (board c) q))
       \<and> (\<forall>ov q. is_game_over c = (ov, Some q) \<longrightarrow> ov \<and> has_line (board c) q)
       \<and> ((\<forall>p. \<not> has_line (board c) p) \<and> moves c = 9 \<longrightarrow> is_game_over c = (True, None))
       \<and> ((\<forall>p. \<not> has_line (board c) p) \<and> moves c \<noteq> 9 \<longrightarrow> is_game_over c = (False, None))"
proof -
  have 1: "\<exists>q. is_game_over c = (True, Some q) \<and> has_line (board c) q"
    if "has_line (board c) p" for p
  proof -
    from assms that obtain q where q: "is_game_over c = (True, Some q)"
      using is_game_over_line_winner by blast
    with assms have "has_line (board c) q" by (rule is_game_over_winner_line)
    with q show ?thesis by blast
  qed
  have 2: "ov \<and> has_line (board c) q" if r: "is_game_over c = (ov, Some q)" for ov q
  proof -
    from assms r have l: "has_line (board c) q" by (rule is_game_over_winner_line)
    with assms obtain q' where "is_game_over c = (True, Some q')"
      using is_game_over_line_winner by blast
    with r l show ?thesis by simp
  qed
  have 3: "is_game_over c = (if moves c = 9 then (True, None) else (False, None))"
    if "\<forall>p. \<not> has_line (board c) p"
    using assms that by (rule is_game_over_no_line)
  from 1 have "(\<exists>p. has_line (board c) p) \<longrightarrow>
            (\<exists>q. is_game_over c = (True, Some q) \<and> has_line (board c) q)" by blast
  moreover from 2 have "\<forall>ov q. is_game_over c = (ov, Some q) \<longrightarrow> ov \<and> has_line (board c) q"
    by blast
  moreover from 3 have "(\<forall>p. \<not> has_line (board c) p) \<and> moves c = 9 \<longrightarrow>
      is_game_over c = (True, None)" by simp
  moreover from 3 have "(\<forall>p. \<not> has_line (board c) p) \<and> moves c \<noteq> 9 \<longrightarrow>
      is_game_over c = (False, None)" by simp
  ultimately show ?thesis by blast
qed

theorem is_game_over_spec_witness:
  "wf_board (board ctx_row_O) \<and> has_line (board ctx_row_O) Player_O
   \<and> (\<exists>q. is_game_over ctx_row_O = (True, Some q) \<and> has_line (board ctx_row_O) q)"
proof -
  have w: "wf_board (board ctx_row_O)" by (simp add: ctx_row_O_def)
  have l: "has_line (board ctx_row_O) Player_O"
    by (simp add: ctx_row_O_def has_line_cells all3_def)
  from is_game_over_spec [OF w] l show ?thesis using w by blast
qed

section \<open>What an update does\<close>

lemma wf_board_nth: "wf_board b \<Longrightarrow> i < 3 \<Longrightarrow> length (b ! i) = 3"
  by (simp add: wf_board_def list_all_length)

lemma py_index_nat [simp]: "i < n \<Longrightarrow> py_index n (int i) = Some i"
  by (simp add: py_index_def)

lemma update_in_range:
  assumes "wf_board (board c)" "i < 3" "j < 3"
  shows "update c (int i) (int j) =
           (None, \<lparr>moves = moves c + 1,
                   board = (board c)[i := (board c ! i)[j := Some (turn c)]],
                   turn = Player_1_minus (turn c)\<rparr>)"
proof -
  from assms have "length (board c) = 3" "length (board c ! i) = 3"
    by (simp_all add: wf_board_def wf_board_nth)
  with assms show ?thesis by (simp add: update_def Let_def)
qed

lemma wf_board_update:
  "wf_board b \<Longrightarrow> i < 3 \<Longrightarrow> wf_board (b[i := (b ! i)[j := v]])"
  by (auto simp: wf_board_def list_all_length nth_list_update)

lemma filter_update_count:
  "j < length xs \<Longrightarrow> \<not> P (xs ! j) \<Longrightarrow> P v \<Longrightarrow>
     length (filter P (xs[j := v])) = Suc (length (filter P xs))"
proof (induction xs arbitrary: j)
  case Nil then show ?case by simp
next
  case (Cons x xs) then show ?case by (cases j) auto
qed

lemma filter_concat_update:
  "i < length b \<Longrightarrow>
     length (filter P (concat (b[i := r]))) + length (filter P (b ! i)) =
     length (filter P (concat b)) + length (filter P r)"
proof (induction b arbitrary: i)
  case Nil then show ?case by simp
next
  case (Cons x xs) then show ?case by (cases i) auto
qed

lemma occupied_update:
  assumes "i < length b" "j < length (b ! i)" "b ! i ! j = None"
  shows "occupied (b[i := (b ! i)[j := Some t]]) = Suc (occupied b)"
proof -
  have "length (filter (\<lambda>x. x \<noteq> None) ((b ! i)[j := Some t])) =
        Suc (length (filter (\<lambda>x. x \<noteq> None) (b ! i)))"
    using assms by (intro filter_update_count) auto
  with filter_concat_update[OF assms(1), of "\<lambda>x. x \<noteq> None" "(b ! i)[j := Some t]"]
  show ?thesis by (simp add: occupied_def)
qed

lemma counted_update:
  assumes "counted c" "i < 3" "j < 3" "board c ! i ! j = None"
  shows "counted (snd (update c (int i) (int j)))"
proof -
  from assms have wf: "wf_board (board c)" and m: "moves c = int (occupied (board c))"
    by (simp_all add: counted_def)
  from wf assms have l: "i < length (board c)" "j < length (board c ! i)"
    by (simp_all add: wf_board_def wf_board_nth)
  show ?thesis
    using wf m assms(2,3) occupied_update[OF l assms(4)]
    by (simp add: update_in_range counted_def wf_board_update)
qed

lemma counted_init: "counted GameContext_init"
  by (simp add: counted_def GameContext_init_def wf_board_def occupied_def upt3)

lemma reachable_counted: "reachable c \<Longrightarrow> counted c"
  by (induction rule: reachable.induct) (auto intro: counted_init counted_update)

lemma GameContext_init_cells:
  "GameContext_init =
     \<lparr>moves = 0, board = [[None,None,None],[None,None,None],[None,None,None]], turn = Player_O\<rparr>"
  by (simp add: GameContext_init_def upt3)

lemma ctx_one_move_cells:
  "ctx_one_move =
     \<lparr>moves = 1, board = [[None,None,None],[None,Some Player_O,None],[None,None,None]],
      turn = Player_X\<rparr>"
  using update_in_range[of GameContext_init 1 1]
  by (simp add: ctx_one_move_def GameContext_init_cells)

lemma reachable_one_move: "reachable ctx_one_move"
  unfolding ctx_one_move_def
  using reachable_step[OF reachable_init, of 1 1] by (simp add: GameContext_init_cells)

section \<open>The move counter\<close>

text \<open>
  C7, as stated, fails: not every application of \<^verbatim>\<open>update\<close> keeps \<^verbatim>\<open>moves\<close> equal to
  the number of marks. In the context reached by O's first move on the centre, a
  second \<^verbatim>\<open>update\<close> on the centre raises nothing, overwrites the mark and increments
  \<^verbatim>\<open>moves\<close>: the counter is 2 and the board holds one mark.
\<close>

theorem update_preserves_count_counterexample:
  "reachable ctx_one_move
   \<and> wf_board (board ctx_one_move)
   \<and> moves ctx_one_move = int (occupied (board ctx_one_move))
   \<and> board ctx_one_move ! 1 ! 1 = Some Player_O
   \<and> fst (update ctx_one_move 1 1) = None
   \<and> moves (snd (update ctx_one_move 1 1)) = 2
   \<and> occupied (board (snd (update ctx_one_move 1 1))) = 1
   \<and> moves (snd (update ctx_one_move 1 1))
        \<noteq> int (occupied (board (snd (update ctx_one_move 1 1))))"
proof -
  have w: "wf_board (board ctx_one_move)" by (simp add: ctx_one_move_cells)
  have u: "update ctx_one_move 1 1 =
             (None, \<lparr>moves = 2,
                     board = [[None,None,None],[None,Some Player_X,None],[None,None,None]],
                     turn = Player_O\<rparr>)"
    using update_in_range[OF w, of 1 1] by (simp add: ctx_one_move_cells)
  show ?thesis
    using reachable_one_move unfolding u
    by (simp add: ctx_one_move_cells occupied_def)
qed

text \<open>
  C7, amended. In every context reached from the initial one by updates on empty cells,
  \<^verbatim>\<open>moves\<close> is the number of non-empty cells of the board; and every update on an
  empty cell of a context with this property gives a context with this property.
\<close>

theorem moves_counts_occupied:
  "(reachable c \<longrightarrow> moves c = int (occupied (board c)))
   \<and> (wf_board (board c) \<and> moves c = int (occupied (board c))
        \<and> i < 3 \<and> j < 3 \<and> board c ! i ! j = None
      \<longrightarrow> moves (snd (update c (int i) (int j)))
            = int (occupied (board (snd (update c (int i) (int j))))))"
proof (intro conjI impI)
  assume "reachable c"
  then have "counted c" by (rule reachable_counted)
  then show "moves c = int (occupied (board c))" by (simp add: counted_def)
next
  assume a: "wf_board (board c) \<and> moves c = int (occupied (board c))
        \<and> i < 3 \<and> j < 3 \<and> board c ! i ! j = None"
  then have "counted c" by (simp add: counted_def)
  with a have "counted (snd (update c (int i) (int j)))" by (simp add: counted_update)
  then show "moves (snd (update c (int i) (int j)))
            = int (occupied (board (snd (update c (int i) (int j)))))"
    by (simp add: counted_def)
qed

theorem moves_counts_occupied_witness:
  "reachable ctx_one_move \<and> moves ctx_one_move = 1 \<and> occupied (board ctx_one_move) = 1
   \<and> wf_board (board ctx_one_move) \<and> board ctx_one_move ! 0 ! 2 = None
   \<and> moves (snd (update ctx_one_move 0 2)) = 2
   \<and> occupied (board (snd (update ctx_one_move 0 2))) = 2"
proof -
  have r: "reachable ctx_one_move" by (rule reachable_one_move)
  have w: "wf_board (board ctx_one_move)" by (simp add: ctx_one_move_cells)
  have e: "board ctx_one_move ! 0 ! 2 = None" by (simp add: ctx_one_move_cells)
  have m: "moves ctx_one_move = 1" by (simp add: ctx_one_move_cells)
  have u: "moves (snd (update ctx_one_move 0 2)) = 2"
    using update_in_range[OF w, of 0 2] m by simp
  from moves_counts_occupied[of ctx_one_move 0 2] r w e m u show ?thesis by simp
qed

section \<open>Updates write in place and check nothing\<close>

text \<open>
  C4, as stated, fails: \<^verbatim>\<open>update\<close> returns no new state. After a legal call on the only
  object of a store, the store still has one object and its fields have changed.
\<close>

theorem update_returns_new_state_counterexample:
  "fst (update_at [GameContext_init] 0 1 1) = None
   \<and> length (snd (update_at [GameContext_init] 0 1 1)) = 1
   \<and> snd (update_at [GameContext_init] 0 1 1) ! 0 \<noteq> GameContext_init"
  using update_in_range[of GameContext_init 1 1]
  by (simp add: update_at_def GameContext_init_cells)

text \<open>
  C4, amended. A call of \<^verbatim>\<open>update\<close> on an empty cell of the object at address \<open>a\<close>
  writes to that object: afterwards it has the cell set to the player whose turn it
  was, \<^verbatim>\<open>moves\<close> incremented and \<^verbatim>\<open>turn\<close> flipped, so it differs from what it was; no
  object is allocated and every other object is as before.
\<close>

theorem update_at_in_place:
  assumes "a < length h" "wf_board (board (h ! a))" "i < 3" "j < 3"
    and "board (h ! a) ! i ! j = None"
  shows "update_at h a (int i) (int j) =
           (None, h[a := \<lparr>moves = moves (h ! a) + 1,
                          board = (board (h ! a))[i := (board (h ! a) ! i)[j := Some (turn (h ! a))]],
                          turn = Player_1_minus (turn (h ! a))\<rparr>])
         \<and> snd (update_at h a (int i) (int j)) ! a \<noteq> h ! a
         \<and> length (snd (update_at h a (int i) (int j))) = length h
         \<and> (\<forall>a'. a' < length h \<and> a' \<noteq> a \<longrightarrow> snd (update_at h a (int i) (int j)) ! a' = h ! a')"
proof -
  let ?c' = "\<lparr>moves = moves (h ! a) + 1,
              board = (board (h ! a))[i := (board (h ! a) ! i)[j := Some (turn (h ! a))]],
              turn = Player_1_minus (turn (h ! a))\<rparr>"
  have u: "update_at h a (int i) (int j) = (None, h[a := ?c'])"
    using assms by (simp add: update_at_def update_in_range)
  have "moves ?c' \<noteq> moves (h ! a)" by simp
  then have "?c' \<noteq> h ! a" by metis
  with u assms(1) show ?thesis by simp
qed

theorem update_at_in_place_witness:
  "(0::nat) < length [GameContext_init] \<and> wf_board (board ([GameContext_init] ! 0))
   \<and> board ([GameContext_init] ! 0) ! 1 ! 1 = None
   \<and> update_at [GameContext_init] 0 1 1 = (None, [ctx_one_move])
   \<and> snd (update_at [GameContext_init] 0 1 1) ! 0 \<noteq> [GameContext_init] ! 0"
proof -
  have w: "wf_board (board ([GameContext_init] ! 0))" by (simp add: GameContext_init_cells)
  have e: "board ([GameContext_init] ! 0) ! 1 ! 1 = None" by (simp add: GameContext_init_cells)
  from update_at_in_place[of 0 "[GameContext_init]" 1 1] w e
  show ?thesis by (simp add: ctx_one_move_cells GameContext_init_cells)
qed

text \<open>
  C3, as stated, fails: \<^verbatim>\<open>update\<close> has no check. On an occupied cell it raises nothing
  and changes the object; with a row index 3 it raises \<^verbatim>\<open>IndexError\<close> after it has
  incremented \<^verbatim>\<open>moves\<close>; and a negative index is accepted by the list.
\<close>

theorem update_rejects_counterexample:
  "board ctx_one_move ! 1 ! 1 \<noteq> None
   \<and> fst (update ctx_one_move 1 1) = None
   \<and> snd (update ctx_one_move 1 1) \<noteq> ctx_one_move
   \<and> fst (update ctx_one_move 3 0) = Some IndexError
   \<and> snd (update ctx_one_move 3 0) \<noteq> ctx_one_move
   \<and> fst (update ctx_one_move (- 1) 0) = None"
proof -
  have w: "wf_board (board ctx_one_move)" by (simp add: ctx_one_move_cells)
  have 1: "fst (update ctx_one_move 1 1) = None \<and> snd (update ctx_one_move 1 1) \<noteq> ctx_one_move"
    using update_in_range[OF w, of 1 1] by (simp add: ctx_one_move_cells)
  have 2: "fst (update ctx_one_move 3 0) = Some IndexError
           \<and> snd (update ctx_one_move 3 0) \<noteq> ctx_one_move"
    by (simp add: update_def py_index_def ctx_one_move_cells)
  have 3: "fst (update ctx_one_move (- 1) 0) = None"
    by (simp add: update_def py_index_def ctx_one_move_cells)
  from 1 2 3 show ?thesis by (simp add: ctx_one_move_cells)
qed

text \<open>
  C3, amended. The check is made by the caller: \<^verbatim>\<open>mouse_callback\<close> returns without
  raising and leaves the application, with its contexts, as it was when the clicked
  cell is outside \<^verbatim>\<open>range(3)\<close> in either coordinate or is not empty. \<^verbatim>\<open>update\<close>
  itself, on any cell of the board, empty or not, raises nothing and writes the cell.
\<close>

theorem mouse_callback_rejects:
  "(\<not> (0 \<le> row \<and> row < 3 \<and> 0 \<le> col \<and> col < 3)
      \<or> board (heap app ! ctx app) ! nat row ! nat col \<noteq> None
    \<longrightarrow> mouse_callback n app row col = Some (Inr app))
   \<and> (wf_board (board c) \<and> i < 3 \<and> j < 3 \<longrightarrow>
        update c (int i) (int j) =
          (None, \<lparr>moves = moves c + 1,
                  board = (board c)[i := (board c ! i)[j := Some (turn c)]],
                  turn = Player_1_minus (turn c)\<rparr>))"
  by (auto simp: mouse_callback_def update_in_range)

theorem mouse_callback_rejects_witness:
  "board (heap app_one_move ! ctx app_one_move) ! nat 1 ! nat 1 \<noteq> None
   \<and> mouse_callback 10 app_one_move 1 1 = Some (Inr app_one_move)
   \<and> mouse_callback 10 app_one_move 3 0 = Some (Inr app_one_move)
   \<and> wf_board (board ctx_one_move)
   \<and> fst (update ctx_one_move (int 1) (int 1)) = None"
proof -
  have o: "board (heap app_one_move ! ctx app_one_move) ! nat 1 ! nat 1 \<noteq> None"
    by (simp add: app_one_move_def ctx_one_move_cells)
  have w: "wf_board (board ctx_one_move)" by (simp add: ctx_one_move_cells)
  from mouse_callback_rejects[of 1 1 app_one_move 10 ctx_one_move 1 1]
       mouse_callback_rejects[of 3 0 app_one_move 10 ctx_one_move 1 1] o w
  show ?thesis by simp
qed

section \<open>Resetting the game\<close>

lemma update_at_in_range:
  assumes "a < length h" "wf_board (board (h ! a))" "0 \<le> row" "row < 3" "0 \<le> col" "col < 3"
  shows "update_at h a row col =
           (None, h[a := \<lparr>moves = moves (h ! a) + 1,
                          board = (board (h ! a))[nat row := (board (h ! a) ! nat row)
                                                    [nat col := Some (turn (h ! a))]],
                          turn = Player_1_minus (turn (h ! a))\<rparr>])"
  using assms update_in_range[of "h ! a" "nat row" "nat col"]
  by (simp add: update_at_def)

text \<open>
  C9, as stated, fails. The player who moves first is the one \<^verbatim>\<open>__init__\<close> puts in
  \<^verbatim>\<open>turn\<close>, which is O. When the user is assigned X, the other mark, the reset makes
  the opening move: \<^verbatim>\<open>moves\<close> is 1, and the mark placed is O, the bot's.
\<close>

theorem reset_game_counterexample:
  "(case reset_game app_one_move Player_X 2 0 of
      Inl e \<Rightarrow> False
    | Inr app' \<Rightarrow>
        user_player app' = Player_X
        \<and> moves (heap app' ! ctx app') = 1
        \<and> user_player app' \<noteq> turn GameContext_init
        \<and> board (heap app' ! ctx app') ! 2 ! 0 = Some Player_O
        \<and> player (bot app') = Player_O)"
proof -
  have "update_at [ctx_one_move, GameContext_init] 1 2 0 =
          (None, [ctx_one_move,
                  \<lparr>moves = 1, board = [[None,None,None],[None,None,None],[Some Player_O,None,None]],
                   turn = Player_X\<rparr>])"
    using update_at_in_range[of 1 "[ctx_one_move, GameContext_init]" 2 0]
    by (simp add: GameContext_init_cells)
  then show ?thesis
    by (simp add: reset_game_def app_one_move_def Let_def GameContext_init_cells)
qed

text \<open>
  C9, amended. After a reset whose draws are \<open>user\<close>, \<open>row\<close> and \<open>col\<close>, the user has
  the player drawn and the bot the other one; \<^verbatim>\<open>moves\<close> is 1 exactly when the user is
  X, the mark that moves second, and then the board holds one mark, an O, the bot's,
  at the cell drawn; \<^verbatim>\<open>moves\<close> is 0 when the user is O, who then moves first on the
  empty board. In both cases it is the user's turn.
\<close>

theorem reset_game_spec:
  assumes "0 \<le> row" "row < 3" "0 \<le> col" "col < 3"
  shows "\<exists>app'. reset_game app user row col = Inr app'
           \<and> user_player app' = user
           \<and> player (bot app') = Player_1_minus user
           \<and> turn (heap app' ! ctx app') = user
           \<and> moves (heap app' ! ctx app') = (if user = Player_X then 1 else 0)
           \<and> (moves (heap app' ! ctx app') = 1 \<longleftrightarrow> user \<noteq> turn GameContext_init)
           \<and> board (heap app' ! ctx app') =
               (if user = Player_X
                then (board GameContext_init)[nat row := (board GameContext_init ! nat row)
                                                [nat col := Some (Player_1_minus user)]]
                else board GameContext_init)"
proof (cases user)
  case Player_X
  have i: "moves GameContext_init = 0" "turn GameContext_init = Player_O"
    "wf_board (board GameContext_init)"
    by (simp_all add: GameContext_init_cells)
  have "update_at (heap app @ [GameContext_init]) (length (heap app)) row col =
          (None, (heap app @ [GameContext_init])[length (heap app) :=
             \<lparr>moves = 1,
              board = (board GameContext_init)[nat row := (board GameContext_init ! nat row)
                                                [nat col := Some Player_O]],
              turn = Player_X\<rparr>])"
    using assms i
      update_at_in_range[of "length (heap app)" "heap app @ [GameContext_init]" row col]
    by simp
  with Player_X i show ?thesis
    by (simp add: reset_game_def Let_def)
next
  case Player_O
  have i: "moves GameContext_init = 0" "turn GameContext_init = Player_O"
    by (simp_all add: GameContext_init_cells)
  with Player_O show ?thesis
    by (simp add: reset_game_def Let_def)
qed

theorem reset_game_spec_witness:
  "(0::int) \<le> 2 \<and> (2::int) < 3 \<and> (0::int) \<le> 0 \<and> (0::int) < 3
   \<and> (\<exists>app'. reset_game app_one_move Player_X 2 0 = Inr app'
          \<and> user_player app' = Player_X \<and> player (bot app') = Player_O
          \<and> turn (heap app' ! ctx app') = Player_X
          \<and> moves (heap app' ! ctx app') = 1)"
  using reset_game_spec[of 2 0 app_one_move Player_X] by auto

section \<open>The game tree\<close>

text \<open>
  The number of legal moves of a context, and the context a move leads to: the
  fields of the object after \<^verbatim>\<open>update\<close>.
\<close>

definition empties :: "GameContext \<Rightarrow> nat" where
  "empties c = length (possible_moves c)"

definition apply_move :: "GameContext \<Rightarrow> int \<times> int \<Rightarrow> GameContext" where
  "apply_move c mv = snd (update c (fst mv) (snd mv))"

lemma possible_moves_legal:
  assumes "mv \<in> set (possible_moves c)"
  obtains i j where "mv = (int i, int j)" "i < 3" "j < 3" "board c ! i ! j = None"
  using assms by (auto simp: possible_moves_def split: if_splits)

lemma row_moves_count:
  "length (concat (map (\<lambda>j. if [x, y, z] ! j = None then [g j] else []) [0, 1, 2]))
     + length (filter (\<lambda>x. x \<noteq> None) [x, y, z]) = 3"
  by (cases x; cases y; cases z) simp_all

lemma empties_occupied:
  assumes "wf_board (board c)"
  shows "empties c + occupied (board c) = 9"
proof -
  from assms obtain a0 a1 a2 a3 a4 a5 a6 a7 a8
    where b: "board c = [[a0,a1,a2],[a3,a4,a5],[a6,a7,a8]]" by (rule wf_boardE)
  have "empties c =
      length (concat (map (\<lambda>j. if [a0,a1,a2] ! j = None then [(int 0, int j)] else []) [0, 1, 2]))
    + length (concat (map (\<lambda>j. if [a3,a4,a5] ! j = None then [(int 1, int j)] else []) [0, 1, 2]))
    + length (concat (map (\<lambda>j. if [a6,a7,a8] ! j = None then [(int 2, int j)] else []) [0, 1, 2]))"
    unfolding empties_def possible_moves_def b upt3 by simp
  moreover have "occupied (board c) =
      length (filter (\<lambda>x. x \<noteq> None) [a0,a1,a2]) + length (filter (\<lambda>x. x \<noteq> None) [a3,a4,a5])
    + length (filter (\<lambda>x. x \<noteq> None) [a6,a7,a8])"
    unfolding occupied_def b by simp
  ultimately show ?thesis
    using row_moves_count[of a0 a1 a2 "\<lambda>j. (int 0, int j)"]
          row_moves_count[of a3 a4 a5 "\<lambda>j. (int 1, int j)"]
          row_moves_count[of a6 a7 a8 "\<lambda>j. (int 2, int j)"]
    by linarith
qed

lemma apply_move_legal:
  assumes "wf_board (board c)" "mv \<in> set (possible_moves c)"
  shows "update c (fst mv) (snd mv) = (None, apply_move c mv)"
    and "wf_board (board (apply_move c mv))"
    and "occupied (board (apply_move c mv)) = Suc (occupied (board c))"
    and "moves (apply_move c mv) = moves c + 1"
    and "turn (apply_move c mv) = Player_1_minus (turn c)"
proof -
  from assms(2) obtain i j where mv: "mv = (int i, int j)" "i < 3" "j < 3" "board c ! i ! j = None"
    by (rule possible_moves_legal)
  from assms(1) mv have l: "i < length (board c)" "j < length (board c ! i)"
    by (simp_all add: wf_board_def wf_board_nth)
  note u = update_in_range[OF assms(1) mv(2,3)]
  show "update c (fst mv) (snd mv) = (None, apply_move c mv)"
    using u mv(1) by (simp add: apply_move_def)
  show "wf_board (board (apply_move c mv))"
    using u mv assms(1) by (simp add: apply_move_def wf_board_update)
  show "occupied (board (apply_move c mv)) = Suc (occupied (board c))"
    using u mv occupied_update[OF l mv(4)] by (simp add: apply_move_def)
  show "moves (apply_move c mv) = moves c + 1"
    using u mv by (simp add: apply_move_def)
  show "turn (apply_move c mv) = Player_1_minus (turn c)"
    using u mv by (simp add: apply_move_def)
qed

lemma empties_apply_move:
  assumes "wf_board (board c)" "mv \<in> set (possible_moves c)"
  shows "Suc (empties (apply_move c mv)) = empties c"
  using empties_occupied[OF assms(1)] empties_occupied[OF apply_move_legal(2)[OF assms]]
        apply_move_legal(3)[OF assms]
  by simp

lemma counted_apply_move:
  assumes "counted c" "mv \<in> set (possible_moves c)"
  shows "counted (apply_move c mv)"
  using assms apply_move_legal(2,3,4)[of c mv] by (simp add: counted_def)

text \<open>
  The minimax score of a position for player \<open>p\<close>, as the specification words it: at
  a position where the game is over, 10 if \<open>p\<close> has won, \<open>-10\<close> if the opponent has
  won and 0 on a draw; otherwise the maximum of the scores of the children when it is
  \<open>p\<close>'s turn and the minimum when it is not. The children are the positions reached by
  the legal moves. A board that is not three by three, which no context has, is given 0
  so that the recursion is well founded by the number of empty cells.
\<close>

function minimax_score :: "Player \<Rightarrow> GameContext \<Rightarrow> int" where
  "minimax_score p c =
     (if \<not> wf_board (board c) then 0
      else if fst (is_game_over c) then
        (if snd (is_game_over c) = Some p then 10
         else if snd (is_game_over c) = Some (Player_1_minus p) then - 10
         else 0)
      else if turn c = p then
        Max (set (map (\<lambda>mv. minimax_score p (apply_move c mv)) (possible_moves c)))
      else
        Min (set (map (\<lambda>mv. minimax_score p (apply_move c mv)) (possible_moves c))))"
  by pat_completeness auto
termination
proof (relation "measure (\<lambda>(p, c). empties c)")
  show "wf (measure (\<lambda>(p, c). empties c))" by simp
next
  fix p :: Player and c mv
  assume "\<not> \<not> wf_board (board c)" "mv \<in> set (possible_moves c)"
  then show "((p, apply_move c mv), (p, c)) \<in> measure (\<lambda>(p, c). empties c)"
    using empties_apply_move[of c mv] by simp
next
  fix p :: Player and c mv
  assume "\<not> \<not> wf_board (board c)" "mv \<in> set (possible_moves c)"
  then show "((p, apply_move c mv), (p, c)) \<in> measure (\<lambda>(p, c). empties c)"
    using empties_apply_move[of c mv] by simp
qed


declare minimax_score.simps [simp del]

section \<open>The store across a search\<close>

text \<open>
  \<open>frame h h'\<close>: every object of the store \<open>h\<close> is in \<open>h'\<close> at the same address with
  the same fields; \<open>h'\<close> may hold further objects.
\<close>

definition frame :: "heap \<Rightarrow> heap \<Rightarrow> bool" where
  "frame h h' = (take (length h) h' = h)"

lemma frame_refl [simp]: "frame h h"
  by (simp add: frame_def)

lemma frame_append [simp]: "frame h (h @ xs)"
  by (simp add: frame_def)

lemma frame_length: "frame h h' \<Longrightarrow> length h \<le> length h'"
proof -
  assume "frame h h'"
  then have "length (take (length h) h') = length h" by (simp add: frame_def)
  then show ?thesis by simp
qed

lemma frame_nth: "frame h h' \<Longrightarrow> a < length h \<Longrightarrow> h' ! a = h ! a"
  using nth_take[of a "length h" h'] by (simp add: frame_def)

lemma frame_trans: "frame h1 h2 \<Longrightarrow> frame h2 h3 \<Longrightarrow> frame h1 h3"
proof -
  assume a: "frame h1 h2" and b: "frame h2 h3"
  from a have l: "length h1 \<le> length h2" by (rule frame_length)
  have "take (length h1) h3 = take (length h1) (take (length h2) h3)"
    using l by (simp add: min_def)
  also have "\<dots> = take (length h1) h2" using b by (simp add: frame_def)
  also have "\<dots> = h1" using a by (simp add: frame_def)
  finally show ?thesis by (simp add: frame_def)
qed

section \<open>Python's max and min with a key\<close>

lemma fold_max_ge: "(a::int) \<le> fold max ys a"
proof (induction ys arbitrary: a)
  case Nil then show ?case by simp
next
  case (Cons y ys)
  have "a \<le> max y a" by simp
  also have "\<dots> \<le> fold max ys (max y a)" by (rule Cons.IH)
  finally show ?case by simp
qed

lemma fold_min_le: "fold min ys (a::int) \<le> a"
proof (induction ys arbitrary: a)
  case Nil then show ?case by simp
next
  case (Cons y ys)
  have "fold min ys (min y a) \<le> min y a" by (rule Cons.IH)
  also have "\<dots> \<le> a" by simp
  finally show ?case by simp
qed

lemma py_max_loop_fold:
  "fst (py_max_loop best xs) = fold max (map fst xs) (fst best)"
  by (induction xs arbitrary: best) (simp_all add: max_def)

lemma py_min_loop_fold:
  "fst (py_min_loop best xs) = fold min (map fst xs) (fst best)"
  by (induction xs arbitrary: best) (simp_all add: min_def)

lemma py_max_loop_find:
  "find (\<lambda>x. fst x = fold max (map fst xs) (fst best)) (best # xs) = Some (py_max_loop best xs)"
proof (induction xs arbitrary: best)
  case Nil then show ?case by simp
next
  case (Cons x xs)
  show ?case
  proof (cases "fst best < fst x")
    case True
    then have m: "max (fst x) (fst best) = fst x" by simp
    have "fst x \<le> fold max (map fst xs) (fst x)" by (rule fold_max_ge)
    with True have "fst best \<noteq> fold max (map fst xs) (fst x)" by simp
    with True Cons.IH[of x] m show ?thesis by simp
  next
    case False
    then have m: "max (fst x) (fst best) = fst best" by simp
    have g: "fst best \<le> fold max (map fst xs) (fst best)" by (rule fold_max_ge)
    show ?thesis
    proof (cases "fst best = fold max (map fst xs) (fst best)")
      case True
      with Cons.IH[of best] False m show ?thesis by simp
    next
      case ne: False
      with g False have "fst x \<noteq> fold max (map fst xs) (fst best)" by simp
      with Cons.IH[of best] False m ne show ?thesis by simp
    qed
  qed
qed

lemma zip_map_self: "zip (map f xs) xs = map (\<lambda>x. (f x, x)) xs"
  by (induction xs) simp_all

lemma find_map_pair:
  "find (\<lambda>x. fst x = M) (map (\<lambda>x. (f x, x)) xs) = map_option (\<lambda>x. (f x, x)) (find (\<lambda>x. f x = M) xs)"
  by (induction xs) simp_all

lemma py_max_zip:
  assumes "ms \<noteq> []"
  shows "\<exists>m. py_max (zip (map f ms) ms) = Inr (Max (set (map f ms)), m)
             \<and> find (\<lambda>m. f m = Max (set (map f ms))) ms = Some m"
proof -
  from assms obtain m0 ms' where ms: "ms = m0 # ms'" by (cases ms) auto
  let ?ps = "map (\<lambda>x. (f x, x)) ms'"
  let ?r = "py_max_loop (f m0, m0) ?ps"
  have M: "Max (set (map f ms)) = fold max (map f ms') (f m0)"
    unfolding ms using Max.set_eq_fold[of "f m0" "map f ms'"] by simp
  have mf: "map fst ?ps = map f ms'" by (simp add: comp_def)
  have 1: "py_max (zip (map f ms) ms) = Inr ?r" by (simp add: ms zip_map_self)
  have 2: "fst ?r = Max (set (map f ms))" by (simp only: py_max_loop_fold mf M fst_conv)
  have "find (\<lambda>x. fst x = Max (set (map f ms))) (map (\<lambda>x. (f x, x)) ms) = Some ?r"
    using py_max_loop_find[of ?ps "(f m0, m0)"] unfolding mf M[symmetric] fst_conv
    by (simp only: ms list.map)
  then have "map_option (\<lambda>x. (f x, x)) (find (\<lambda>x. f x = Max (set (map f ms))) ms) = Some ?r"
    by (simp add: find_map_pair)
  then obtain m where m: "find (\<lambda>x. f x = Max (set (map f ms))) ms = Some m" "?r = (f m, m)"
    by auto
  with 1 2 show ?thesis by auto
qed

lemma py_min_zip:
  assumes "ms \<noteq> []"
  shows "\<exists>m. py_min (zip (map f ms) ms) = Inr (Min (set (map f ms)), m)"
proof -
  from assms obtain m0 ms' where ms: "ms = m0 # ms'" by (cases ms) auto
  let ?ps = "map (\<lambda>x. (f x, x)) ms'"
  let ?r = "py_min_loop (f m0, m0) ?ps"
  have M: "Min (set (map f ms)) = fold min (map f ms') (f m0)"
    unfolding ms using Min.set_eq_fold[of "f m0" "map f ms'"] by simp
  have mf: "map fst ?ps = map f ms'" by (simp add: comp_def)
  have 1: "py_min (zip (map f ms) ms) = Inr ?r" by (simp add: ms zip_map_self)
  have 2: "fst ?r = Min (set (map f ms))" by (simp only: py_min_loop_fold mf M fst_conv)
  from 1 2 show ?thesis by (cases ?r) auto
qed

section \<open>The search computes the minimax score\<close>

text \<open>
  The scores of the children in the order of \<^verbatim>\<open>possible_moves\<close>, and the first move in
  that order whose child has the greatest score.
\<close>

definition child_scores :: "Player \<Rightarrow> GameContext \<Rightarrow> int list" where
  "child_scores p c = map (\<lambda>mv. minimax_score p (apply_move c mv)) (possible_moves c)"

definition best_move :: "Player \<Rightarrow> GameContext \<Rightarrow> (int \<times> int) option" where
  "best_move p c =
     find (\<lambda>mv. minimax_score p (apply_move c mv) = Max (set (child_scores p c)))
          (possible_moves c)"

text \<open>
  What a call of \<^verbatim>\<open>minimax\<close> leaves behind: the store framed, the bot's player and
  depth as they were, and the bot untouched when \<open>depth\<close> is below \<^verbatim>\<open>max_depth\<close>.
\<close>

definition mm_post :: "Bot \<Rightarrow> heap \<Rightarrow> int \<Rightarrow> Bot \<Rightarrow> heap \<Rightarrow> bool" where
  "mm_post self h depth self' h' =
     (frame h h' \<and> player self' = player self \<and> max_depth self' = max_depth self
      \<and> (depth < max_depth self \<longrightarrow> self' = self))"

lemma Player_cases2: "q = p \<or> q = Player_1_minus p"
  by (cases p; cases q) simp_all

lemma minimax_over:
  assumes "is_game_over (h ! a) = (True, w)"
  shows "minimax (Suc n) self h a depth =
           Some (Inr ((if w = Some (player self) then 10
                       else if w = Some (Player_1_minus (player self)) then - 10 else 0), self, h))"
proof (cases w)
  case None
  with assms show ?thesis by simp
next
  case (Some q)
  with assms Player_cases2[of q "player self"] show ?thesis by auto
qed

lemma minimax_search:
  assumes "\<not> fst (is_game_over (h ! a))"
  shows "minimax (Suc n) self h a depth =
     (case minimax_loop n self h a depth (possible_moves (h ! a)) [] of
           None \<Rightarrow> None
         | Some (Inl e) \<Rightarrow> Some (Inl e)
         | Some (Inr (scores, self1, h1)) \<Rightarrow>
             (if turn (h1 ! a) = player self1 then
                (case py_max (zip scores (possible_moves (h ! a))) of
                   Inl e \<Rightarrow> Some (Inl e)
                 | Inr (score, mv) \<Rightarrow>
                     Some (Inr (score,
                       (if depth = max_depth self1 then self1\<lparr>move := Some mv\<rparr> else self1), h1)))
              else
                (case py_min (zip scores (possible_moves (h ! a))) of
                   Inl e \<Rightarrow> Some (Inl e)
                 | Inr (score, _) \<Rightarrow>
                     Some (Inr (score,
                       (if depth = max_depth self1
                        then self1\<lparr>move := Some (last (possible_moves (h ! a)))\<rparr>
                        else self1), h1)))))"
  using assms by (cases "is_game_over (h ! a)") (simp add: Let_def)

lemma minimax_score_over:
  assumes "wf_board (board c)" "is_game_over c = (True, w)"
  shows "minimax_score p c =
           (if w = Some p then 10 else if w = Some (Player_1_minus p) then - 10 else 0)"
  using assms by (subst minimax_score.simps) simp

lemma minimax_score_search:
  assumes "wf_board (board c)" "\<not> fst (is_game_over c)"
  shows "minimax_score p c =
           (if turn c = p then Max (set (child_scores p c)) else Min (set (child_scores p c)))"
  using assms by (subst minimax_score.simps) (simp add: child_scores_def)

lemma over_when_nine:
  assumes "wf_board (board c)" "moves c = 9"
  shows "fst (is_game_over c)"
  using assms(1)
proof (rule ctx_cellsE)
  fix m t a0 a1 a2 a3 a4 a5 a6 a7 a8
  assume c: "c = \<lparr>moves = m, board = [[a0,a1,a2],[a3,a4,a5],[a6,a7,a8]], turn = t\<rparr>"
  with assms(2) have "m = 9" by simp
  then show ?thesis unfolding c igo_chain by simp
qed

lemma moves_nonempty:
  assumes "counted c" "\<not> fst (is_game_over c)"
  shows "possible_moves c \<noteq> []"
proof
  assume "possible_moves c = []"
  then have "empties c = 0" by (simp add: empties_def)
  moreover from assms(1) have wf: "wf_board (board c)" and m: "moves c = int (occupied (board c))"
    by (simp_all add: counted_def)
  ultimately have "moves c = 9" using empties_occupied[OF wf] by simp
  with wf have "fst (is_game_over c)" by (rule over_when_nine)
  with assms(2) show False by simp
qed

lemma minimax_loop_correct:
  assumes IH: "\<And>self h a depth. a < length h \<Longrightarrow> counted (h ! a) \<Longrightarrow> empties (h ! a) < n \<Longrightarrow>
      \<exists>self' h'. minimax n self h a depth
                   = Some (Inr (minimax_score (player self) (h ! a), self', h'))
                 \<and> mm_post self h depth self' h'"
    and "a < length h" "counted (h ! a)" "empties (h ! a) \<le> n"
    and "set rest \<subseteq> set (possible_moves (h ! a))"
  shows "\<exists>self' h'. minimax_loop n self h a depth rest scores
           = Some (Inr (scores @ map (\<lambda>mv. minimax_score (player self) (apply_move (h ! a) mv)) rest,
                        self', h'))
         \<and> mm_post self h (depth - 1) self' h'"
  using assms(2-)
proof (induction rest arbitrary: self h scores)
  case Nil
  then show ?case by (simp add: mm_post_def)
next
  case (Cons mv rest)
  let ?c = "h ! a"
  let ?c' = "apply_move ?c mv"
  let ?h2 = "h @ [?c']"
  from Cons.prems have mv: "mv \<in> set (possible_moves ?c)" by simp
  from Cons.prems have wf: "wf_board (board ?c)" by (simp add: counted_def)
  have dc: "deepcopy h a = (length h, h @ [?c])" by (simp add: deepcopy_def)
  have up: "update_at (h @ [?c]) (length h) (fst mv) (snd mv) = (None, ?h2)"
    using apply_move_legal(1)[OF wf mv] by (simp add: update_at_def)
  have c': "counted ?c'" using Cons.prems(2) mv by (rule counted_apply_move)
  have e': "empties ?c' < n" using empties_apply_move[OF wf mv] Cons.prems(3) by simp
  have "\<exists>self' h'. minimax n self ?h2 (length h) (depth - 1)
                   = Some (Inr (minimax_score (player self) (?h2 ! length h), self', h'))
                 \<and> mm_post self ?h2 (depth - 1) self' h'"
    using c' e' by (intro IH) simp_all
  then obtain self1 h3 where
    r: "minimax n self ?h2 (length h) (depth - 1)
          = Some (Inr (minimax_score (player self) ?c', self1, h3))"
    and p1: "mm_post self ?h2 (depth - 1) self1 h3" by auto
  from p1 have f23: "frame ?h2 h3" by (simp add: mm_post_def)
  have f13: "frame h h3" using frame_append f23 by (rule frame_trans)
  from f13 Cons.prems(1) have a3: "a < length h3" using frame_length[OF f13] by simp
  from f13 Cons.prems(1) have c3: "h3 ! a = ?c" by (rule frame_nth)
  have "\<exists>self' h'. minimax_loop n self1 h3 a depth rest
                       (scores @ [minimax_score (player self) ?c'])
           = Some (Inr ((scores @ [minimax_score (player self) ?c'])
                          @ map (\<lambda>mv. minimax_score (player self1) (apply_move (h3 ! a) mv)) rest,
                        self', h'))
         \<and> mm_post self1 h3 (depth - 1) self' h'"
    using a3 c3 Cons.prems by (intro Cons.IH) simp_all
  then obtain self' h' where
    l: "minimax_loop n self1 h3 a depth rest (scores @ [minimax_score (player self) ?c'])
           = Some (Inr ((scores @ [minimax_score (player self) ?c'])
                          @ map (\<lambda>mv. minimax_score (player self1) (apply_move (h3 ! a) mv)) rest,
                        self', h'))"
    and p2: "mm_post self1 h3 (depth - 1) self' h'" by auto
  from p1 have ps: "player self1 = player self" by (simp add: mm_post_def)
  have res: "minimax_loop n self h a depth (mv # rest) scores
           = Some (Inr (scores @ map (\<lambda>mv. minimax_score (player self) (apply_move ?c mv)) (mv # rest),
                        self', h'))"
    using dc up r l by (simp add: ps c3)
  have "frame h h'" using f13 p2 by (auto simp: mm_post_def intro: frame_trans)
  with p1 p2 have "mm_post self h (depth - 1) self' h'" by (auto simp: mm_post_def)
  with res show ?case by blast
qed

text \<open>
  The value of the variable \<^verbatim>\<open>move\<close> after the \<^verbatim>\<open>if\<close> of \<^verbatim>\<open>minimax\<close>: the move of
  the greatest pair in the \<^verbatim>\<open>max\<close> branch, the last move of the loop in the \<^verbatim>\<open>min\<close>
  branch.
\<close>

definition root_move :: "Player \<Rightarrow> GameContext \<Rightarrow> (int \<times> int) option" where
  "root_move p c =
     (if turn c = p then best_move p c else Some (last (possible_moves c)))"

lemma minimax_node:
  assumes IH: "\<And>self h a depth. a < length h \<Longrightarrow> counted (h ! a) \<Longrightarrow> empties (h ! a) < n \<Longrightarrow>
      \<exists>self' h'. minimax n self h a depth
                   = Some (Inr (minimax_score (player self) (h ! a), self', h'))
                 \<and> mm_post self h depth self' h'"
    and a: "a < length h" and cn: "counted (h ! a)" and e: "empties (h ! a) \<le> n"
    and no: "\<not> fst (is_game_over (h ! a))"
  shows "\<exists>self1 h'. minimax (Suc n) self h a depth
           = Some (Inr (minimax_score (player self) (h ! a),
                        (if depth = max_depth self1
                         then self1\<lparr>move := root_move (player self) (h ! a)\<rparr> else self1), h'))
         \<and> mm_post self h (depth - 1) self1 h'"
proof -
  let ?c = "h ! a"
  let ?p = "player self"
  let ?mvs = "possible_moves ?c"
  let ?f = "\<lambda>mv. minimax_score ?p (apply_move ?c mv)"
  from cn have wf: "wf_board (board ?c)" by (simp add: counted_def)
  have "\<exists>self' h'. minimax_loop n self h a depth ?mvs []
           = Some (Inr ([] @ map ?f ?mvs, self', h'))
         \<and> mm_post self h (depth - 1) self' h'"
    using IH a cn e by (intro minimax_loop_correct) simp_all
  then obtain self1 h1 where
    l: "minimax_loop n self h a depth ?mvs [] = Some (Inr (map ?f ?mvs, self1, h1))"
    and p: "mm_post self h (depth - 1) self1 h1" by auto
  from p have f: "frame h h1" and ps: "player self1 = ?p" by (simp_all add: mm_post_def)
  from f a have c1: "h1 ! a = ?c" by (rule frame_nth)
  from cn no have ne: "?mvs \<noteq> []" by (rule moves_nonempty)
  have cs: "child_scores ?p ?c = map ?f ?mvs" by (simp add: child_scores_def)
  show ?thesis
  proof (cases "turn ?c = ?p")
    case True
    from py_max_zip[OF ne, of ?f] obtain m where
      m: "py_max (zip (map ?f ?mvs) ?mvs) = Inr (Max (set (map ?f ?mvs)), m)"
      and fm: "find (\<lambda>m. ?f m = Max (set (map ?f ?mvs))) ?mvs = Some m" by blast
    from fm have bm: "root_move ?p ?c = Some m" using True by (simp add: root_move_def best_move_def cs)
    have sc: "minimax_score ?p ?c = Max (set (map ?f ?mvs))"
      using minimax_score_search[OF wf no, of ?p] True by (simp add: cs)
    have "minimax (Suc n) self h a depth
           = Some (Inr (minimax_score ?p ?c,
                        (if depth = max_depth self1
                         then self1\<lparr>move := root_move ?p ?c\<rparr> else self1), h1))"
      unfolding minimax_search[OF no] l using True m by (simp add: c1 ps bm sc)
    with p show ?thesis by blast
  next
    case False
    from py_min_zip[OF ne, of ?f] obtain m where
      m: "py_min (zip (map ?f ?mvs) ?mvs) = Inr (Min (set (map ?f ?mvs)), m)" by blast
    have bm: "root_move ?p ?c = Some (last ?mvs)" using False by (simp add: root_move_def)
    have sc: "minimax_score ?p ?c = Min (set (map ?f ?mvs))"
      using minimax_score_search[OF wf no, of ?p] False by (simp add: cs)
    have "minimax (Suc n) self h a depth
           = Some (Inr (minimax_score ?p ?c,
                        (if depth = max_depth self1
                         then self1\<lparr>move := root_move ?p ?c\<rparr> else self1), h1))"
      unfolding minimax_search[OF no] l using False m by (simp add: c1 ps bm sc)
    with p show ?thesis by blast
  qed
qed

lemma minimax_correct:
  assumes "a < length h" "counted (h ! a)" "empties (h ! a) < n"
  shows "\<exists>self' h'. minimax n self h a depth
                   = Some (Inr (minimax_score (player self) (h ! a), self', h'))
                 \<and> mm_post self h depth self' h'"
  using assms
proof (induction n arbitrary: self h a depth)
  case 0
  then show ?case by simp
next
  case (Suc n)
  let ?c = "h ! a"
  from Suc.prems have wf: "wf_board (board ?c)" by (simp add: counted_def)
  show ?case
  proof (cases "fst (is_game_over ?c)")
    case True
    then obtain w where w: "is_game_over ?c = (True, w)" by (cases "is_game_over ?c") auto
    show ?thesis
      unfolding minimax_over[OF w] minimax_score_over[OF wf w]
      by (simp add: mm_post_def)
  next
    case False
    from Suc.prems have e: "empties ?c \<le> n" by simp
    from minimax_node[of n a h self depth, OF Suc.IH Suc.prems(1,2) e False]
    obtain self1 h' where
      r: "minimax (Suc n) self h a depth
           = Some (Inr (minimax_score (player self) ?c,
                        (if depth = max_depth self1
                         then self1\<lparr>move := root_move (player self) ?c\<rparr> else self1), h'))"
      and p: "mm_post self h (depth - 1) self1 h'" by blast
    let ?s = "if depth = max_depth self1
              then self1\<lparr>move := root_move (player self) ?c\<rparr> else self1"
    from p have "mm_post self h depth ?s h'" by (auto simp: mm_post_def)
    with r show ?thesis by blast
  qed
qed

lemma minimax_root:
  assumes "a < length h" "counted (h ! a)" "empties (h ! a) < n"
    and "\<not> fst (is_game_over (h ! a))"
  shows "\<exists>h'. minimax n self h a (max_depth self)
                   = Some (Inr (minimax_score (player self) (h ! a),
                                self\<lparr>move := root_move (player self) (h ! a)\<rparr>, h'))
                 \<and> frame h h'"
proof -
  from assms(3) obtain n' where n: "n = Suc n'" by (cases n) auto
  with assms(3) have e: "empties (h ! a) \<le> n'" by simp
  have "\<exists>self1 h'. minimax (Suc n') self h a (max_depth self)
           = Some (Inr (minimax_score (player self) (h ! a),
                        (if max_depth self = max_depth self1
                         then self1\<lparr>move := root_move (player self) (h ! a)\<rparr> else self1), h'))
         \<and> mm_post self h (max_depth self - 1) self1 h'"
    using assms(1,2) e assms(4) by (intro minimax_node minimax_correct)
  then obtain self1 h' where
    r: "minimax (Suc n') self h a (max_depth self)
           = Some (Inr (minimax_score (player self) (h ! a),
                        (if max_depth self = max_depth self1
                         then self1\<lparr>move := root_move (player self) (h ! a)\<rparr> else self1), h'))"
    and p: "mm_post self h (max_depth self - 1) self1 h'" by blast
  from p have "self1 = self" "frame h h'" by (simp_all add: mm_post_def)
  with r n show ?thesis by simp
qed

lemma minimax_loop_frame:
  assumes IH: "\<And>self h a depth s self' h'.
      minimax n self h a depth = Some (Inr (s, self', h')) \<Longrightarrow> frame h h'"
    and "minimax_loop n self h a depth rest scores = Some (Inr (ss, self', h'))"
  shows "frame h h'"
  using assms(2)
proof (induction rest arbitrary: self h scores)
  case Nil
  then show ?case by simp
next
  case (Cons mv rest)
  obtain e c2 where u: "update (h ! a) (fst mv) (snd mv) = (e, c2)"
    by (cases "update (h ! a) (fst mv) (snd mv)") auto
  then have up: "update_at (h @ [h ! a]) (length h) (fst mv) (snd mv) = (e, h @ [c2])"
    by (simp add: update_at_def)
  from Cons.prems up have e: "e = None"
    by (cases e) (simp_all add: deepcopy_def)
  from Cons.prems up e obtain s self1 h3 where
    r: "minimax n self (h @ [c2]) (length h) (depth - 1) = Some (Inr (s, self1, h3))"
    and l: "minimax_loop n self1 h3 a depth rest (scores @ [s]) = Some (Inr (ss, self', h'))"
    by (auto simp: deepcopy_def split: option.splits sum.splits)
  from r have "frame (h @ [c2]) h3" by (rule IH)
  with frame_append have "frame h h3" by (rule frame_trans)
  moreover from l have "frame h3 h'" by (rule Cons.IH)
  ultimately show ?case by (rule frame_trans)
qed

lemma minimax_frame:
  "minimax n self h a depth = Some (Inr (s, self', h')) \<Longrightarrow> frame h h'"
proof (induction n arbitrary: self h a depth s self' h')
  case 0
  then show ?case by simp
next
  case (Suc n)
  show ?case
  proof (cases "fst (is_game_over (h ! a))")
    case True
    then obtain w where w: "is_game_over (h ! a) = (True, w)"
      by (cases "is_game_over (h ! a)") auto
    from Suc.prems show ?thesis unfolding minimax_over[OF w] by simp
  next
    case False
    from Suc.prems obtain ss self1 where
      "minimax_loop n self h a depth (possible_moves (h ! a)) [] = Some (Inr (ss, self1, h'))"
      unfolding minimax_search[OF False]
      by (auto split: option.splits sum.splits if_splits prod.splits)
    then show ?thesis using Suc.IH by (rule minimax_loop_frame[rotated])
  qed
qed

section \<open>Positions used as examples\<close>

text \<open>
  A position with two empty cells and X to move, a full board that is a draw, and two
  bots playing X: one that has never searched and one that has stored a move.
\<close>

definition ctx_two_left :: GameContext where
  "ctx_two_left =
     \<lparr> moves = 7,
       board = [[Some Player_O, Some Player_X, Some Player_O],
                [Some Player_X, Some Player_X, Some Player_O],
                [None, Some Player_O, None]],
       turn = Player_X \<rparr>"

definition ctx_full :: GameContext where
  "ctx_full =
     \<lparr> moves = 9,
       board = [[Some Player_O, Some Player_X, Some Player_O],
                [Some Player_X, Some Player_X, Some Player_O],
                [Some Player_O, Some Player_O, Some Player_X]],
       turn = Player_X \<rparr>"

definition bot_X :: Bot where
  "bot_X = \<lparr>player = Player_X, max_depth = 8, move = None\<rparr>"

definition bot_X_moved :: Bot where
  "bot_X_moved = \<lparr>player = Player_X, max_depth = 8, move = Some (2, 2)\<rparr>"

text \<open>
  A context whose counter does not match its board: eight marks, one empty cell, and
  \<^verbatim>\<open>moves\<close> at 10, as after two updates on occupied cells.
\<close>

definition ctx_miscounted :: GameContext where
  "ctx_miscounted =
     \<lparr> moves = 10,
       board = [[Some Player_O, Some Player_X, Some Player_O],
                [Some Player_X, Some Player_X, Some Player_O],
                [Some Player_X, Some Player_O, None]],
       turn = Player_X \<rparr>"

lemma ctx_two_left_facts:
  "wf_board (board ctx_two_left)" "moves ctx_two_left = int (occupied (board ctx_two_left))"
  "counted ctx_two_left" "\<not> fst (is_game_over ctx_two_left)" "empties ctx_two_left = 2"
  "possible_moves ctx_two_left = [(2, 0), (2, 2)]" "turn ctx_two_left = Player_X"
  by (simp_all add: ctx_two_left_def counted_def occupied_def igo_chain filled_equal3
        empties_def possible_moves_def upt3)

lemma ctx_row_O_facts:
  "wf_board (board ctx_row_O)" "moves ctx_row_O = int (occupied (board ctx_row_O))"
  "is_game_over ctx_row_O = (True, Some Player_O)"
  "possible_moves ctx_row_O = [(1, 2), (2, 0), (2, 1), (2, 2)]" "turn ctx_row_O = Player_X"
  by (simp_all add: ctx_row_O_def occupied_def igo_chain filled_equal3
        possible_moves_def upt3)

lemma ctx_full_facts:
  "wf_board (board ctx_full)" "moves ctx_full = int (occupied (board ctx_full))"
  "is_game_over ctx_full = (True, None)" "possible_moves ctx_full = []"
  by (simp_all add: ctx_full_def occupied_def igo_chain filled_equal3
        possible_moves_def upt3)

text \<open>
  The search from the position with two empty cells, run on the model: X on \<open>(2, 0)\<close>
  lets O complete the last column, X on \<open>(2, 2)\<close> leads to a draw, so the bot answers
  \<open>(2, 2)\<close>; the store then holds the position and the four copies the search made.
\<close>

lemma minimax_score_two_left:
  "map (\<lambda>m. minimax_score Player_X (apply_move ctx_two_left m)) (possible_moves ctx_two_left)
     = [- 10, 0]
   \<and> minimax_score Player_X ctx_two_left = 0"
  by code_simp

lemma predict_move_two_left:
  "predict_move 3 bot_X [ctx_two_left] 0
     = Some (Inr ((2, 2), bot_X\<lparr>move := Some (2, 2)\<rparr>,
                  [ctx_two_left,
                   apply_move ctx_two_left (2, 0), apply_move (apply_move ctx_two_left (2, 0)) (2, 2),
                   apply_move ctx_two_left (2, 2), apply_move (apply_move ctx_two_left (2, 2)) (2, 0)]))"
  by code_simp

text \<open>
  Where \<^verbatim>\<open>moves\<close> is not the number of marks the search can fail: the only child of
  \<open>ctx_miscounted\<close> is a full board without a line whose counter is 11, so the game
  is not over there, no move is possible, and \<^verbatim>\<open>max\<close> of the empty sequence raises
  \<^verbatim>\<open>ValueError\<close>.
\<close>

lemma predict_move_miscounted:
  "turn ctx_miscounted = player bot_X \<and> possible_moves ctx_miscounted = [(2, 2)]
   \<and> \<not> fst (is_game_over ctx_miscounted)
   \<and> predict_move 3 bot_X [ctx_miscounted] 0 = Some (Inl ValueError)"
  by code_simp

section \<open>The move the bot returns\<close>

text \<open>
  C1, as stated, fails. In \<open>ctx_row_O\<close> O has completed the first row after five moves;
  it is X's turn, four cells are empty and \<^verbatim>\<open>moves\<close> is the number of marks. A bot
  playing X that has not searched before returns no move: \<^verbatim>\<open>minimax\<close> returns the
  score of the finished game before it assigns \<^verbatim>\<open>self.move\<close>, and \<^verbatim>\<open>predict_move\<close>
  raises \<^verbatim>\<open>AttributeError\<close>.
\<close>

theorem predict_move_counterexample:
  "turn ctx_row_O = player bot_X \<and> possible_moves ctx_row_O \<noteq> []
   \<and> moves ctx_row_O = int (occupied (board ctx_row_O))
   \<and> predict_move 10 bot_X [ctx_row_O] 0 = Some (Inl AttributeError)"
proof -
  have "is_game_over ([ctx_row_O] ! 0) = (True, Some Player_O)" by (simp add: ctx_row_O_facts)
  from minimax_over[OF this, of 9 bot_X "max_depth bot_X"]
  have "predict_move 10 bot_X [ctx_row_O] 0 = Some (Inl AttributeError)"
    by (simp add: predict_move_def bot_X_def)
  then show ?thesis by (simp add: ctx_row_O_facts bot_X_def)
qed

text \<open>
  C1, amended. For every context in which \<^verbatim>\<open>moves\<close> is the number of marks on the
  board, the game is not over, it is the bot's turn and there is a legal move,
  \<^verbatim>\<open>predict_move\<close> returns the first move, in the order of \<^verbatim>\<open>possible_moves\<close>, whose
  child has the greatest minimax score, and stores it in \<^verbatim>\<open>self.move\<close>. A recursion
  bound above the number of empty cells is enough for the search.
\<close>

theorem predict_move_first_best:
  assumes "a < length h" "wf_board (board (h ! a))"
    and "moves (h ! a) = int (occupied (board (h ! a)))"
    and "turn (h ! a) = player self" "possible_moves (h ! a) \<noteq> []"
    and "\<not> fst (is_game_over (h ! a))" "empties (h ! a) < n"
  shows "\<exists>mv h'. predict_move n self h a = Some (Inr (mv, self\<lparr>move := Some mv\<rparr>, h'))
           \<and> find (\<lambda>m. minimax_score (player self) (apply_move (h ! a) m)
                        = Max (set (map (\<lambda>m. minimax_score (player self) (apply_move (h ! a) m))
                                         (possible_moves (h ! a)))))
                  (possible_moves (h ! a)) = Some mv"
proof -
  from assms(2,3) have c: "counted (h ! a)" by (simp add: counted_def)
  from minimax_root[OF assms(1) c assms(7,6), of self] obtain h' where
    r: "minimax n self h a (max_depth self)
          = Some (Inr (minimax_score (player self) (h ! a),
                       self\<lparr>move := root_move (player self) (h ! a)\<rparr>, h'))" by blast
  have rm: "root_move (player self) (h ! a) = best_move (player self) (h ! a)"
    using assms(4) by (simp add: root_move_def)
  from py_max_zip[OF assms(5), of "\<lambda>m. minimax_score (player self) (apply_move (h ! a) m)"]
  obtain mv where
    f: "find (\<lambda>m. minimax_score (player self) (apply_move (h ! a) m)
                        = Max (set (map (\<lambda>m. minimax_score (player self) (apply_move (h ! a) m))
                                         (possible_moves (h ! a)))))
                  (possible_moves (h ! a)) = Some mv" by blast
  then have "best_move (player self) (h ! a) = Some mv"
    by (simp add: best_move_def child_scores_def)
  with r rm have "predict_move n self h a = Some (Inr (mv, self\<lparr>move := Some mv\<rparr>, h'))"
    by (simp add: predict_move_def)
  with f show ?thesis by blast
qed

text \<open>The hypotheses hold in the position with two empty cells, for the bot playing X.\<close>

theorem predict_move_first_best_witness:
  "(0::nat) < length [ctx_two_left] \<and> wf_board (board ([ctx_two_left] ! 0))
   \<and> moves ([ctx_two_left] ! 0) = int (occupied (board ([ctx_two_left] ! 0)))
   \<and> turn ([ctx_two_left] ! 0) = player bot_X \<and> possible_moves ([ctx_two_left] ! 0) \<noteq> []
   \<and> \<not> fst (is_game_over ([ctx_two_left] ! 0)) \<and> empties ([ctx_two_left] ! 0) < 3
   \<and> (\<exists>mv h'. predict_move 3 bot_X [ctx_two_left] 0 = Some (Inr (mv, bot_X\<lparr>move := Some mv\<rparr>, h'))
           \<and> find (\<lambda>m. minimax_score (player bot_X) (apply_move ([ctx_two_left] ! 0) m)
                        = Max (set (map (\<lambda>m. minimax_score (player bot_X)
                                                  (apply_move ([ctx_two_left] ! 0) m))
                                         (possible_moves ([ctx_two_left] ! 0)))))
                  (possible_moves ([ctx_two_left] ! 0)) = Some mv)
   \<and> map_option (map_sum id fst) (predict_move 3 bot_X [ctx_two_left] 0) = Some (Inr (2, 2))"
proof -
  have h: "(0::nat) < length [ctx_two_left]" "wf_board (board ([ctx_two_left] ! 0))"
    "moves ([ctx_two_left] ! 0) = int (occupied (board ([ctx_two_left] ! 0)))"
    "turn ([ctx_two_left] ! 0) = player bot_X" "possible_moves ([ctx_two_left] ! 0) \<noteq> []"
    "\<not> fst (is_game_over ([ctx_two_left] ! 0))" "empties ([ctx_two_left] ! 0) < 3"
    by (simp_all add: ctx_two_left_facts bot_X_def)
  have e: "map_option (map_sum id fst) (predict_move 3 bot_X [ctx_two_left] 0)
             = Some (Inr (2, 2))"
    by (simp add: predict_move_two_left)
  from predict_move_first_best[OF h] h e show ?thesis by blast
qed


section \<open>The search and the context it is given\<close>

text \<open>
  C5. Whenever \<^verbatim>\<open>minimax\<close>, at any depth, or \<^verbatim>\<open>predict_move\<close> returns, the context it
  was given, like every other object that was in the store, has the fields it had
  before the call: all writes of the search go to the copies it allocates. And on a
  context in which \<^verbatim>\<open>moves\<close> is the number of marks the search does return, for every
  depth, once the recursion bound is above the number of empty cells.
\<close>

theorem minimax_leaves_context_unchanged:
  "(minimax n self h a depth = Some (Inr (s, self', h')) \<and> a < length h
      \<longrightarrow> h' ! a = h ! a \<and> take (length h) h' = h)
   \<and> (predict_move n self h a = Some (Inr (mv, self', h')) \<and> a < length h
      \<longrightarrow> h' ! a = h ! a \<and> take (length h) h' = h)
   \<and> (a < length h \<and> wf_board (board (h ! a)) \<and> moves (h ! a) = int (occupied (board (h ! a)))
        \<and> empties (h ! a) < n
      \<longrightarrow> (\<exists>s self' h'. minimax n self h a depth = Some (Inr (s, self', h'))
                \<and> h' ! a = h ! a \<and> take (length h) h' = h))"
proof -
  have fr: "h' ! a = h ! a \<and> take (length h) h' = h" if "frame h h'" "a < length h" for h' :: heap
    using that by (simp add: frame_nth) (simp add: frame_def)
  have 1: "h' ! a = h ! a \<and> take (length h) h' = h"
    if "minimax n self h a depth = Some (Inr (s, self', h')) \<and> a < length h"
    using that minimax_frame[of n self h a depth s self' h'] fr by blast
  have 2: "h' ! a = h ! a \<and> take (length h) h' = h"
    if p: "predict_move n self h a = Some (Inr (mv, self', h')) \<and> a < length h"
  proof -
    from p obtain s where "minimax n self h a (max_depth self) = Some (Inr (s, self', h'))"
      by (auto simp: predict_move_def split: option.splits sum.splits)
    then have "frame h h'" by (rule minimax_frame)
    with p fr show ?thesis by blast
  qed
  have 3: "\<exists>s self' h'. minimax n self h a depth = Some (Inr (s, self', h'))
                \<and> h' ! a = h ! a \<and> take (length h) h' = h"
    if a: "a < length h \<and> wf_board (board (h ! a))
      \<and> moves (h ! a) = int (occupied (board (h ! a))) \<and> empties (h ! a) < n"
  proof -
    from a have "counted (h ! a)" by (simp add: counted_def)
    with a obtain self1 h1 where
      r: "minimax n self h a depth = Some (Inr (minimax_score (player self) (h ! a), self1, h1))"
      and "mm_post self h depth self1 h1"
      using minimax_correct[of a h n self depth] by blast
    then have "frame h h1" by (simp add: mm_post_def)
    with a fr have "h1 ! a = h ! a \<and> take (length h) h1 = h" by blast
    with r show ?thesis by blast
  qed
  from 1 2 3 show ?thesis by blast
qed

text \<open>The search from the position with two empty cells returns and leaves it as it was.\<close>

theorem minimax_leaves_context_unchanged_witness:
  "(0::nat) < length [ctx_two_left] \<and> wf_board (board ([ctx_two_left] ! 0))
   \<and> moves ([ctx_two_left] ! 0) = int (occupied (board ([ctx_two_left] ! 0)))
   \<and> empties ([ctx_two_left] ! 0) < 3
   \<and> (\<exists>s self' h'. minimax 3 bot_X [ctx_two_left] 0 8 = Some (Inr (s, self', h'))
          \<and> h' ! 0 = ctx_two_left \<and> take (length [ctx_two_left]) h' = [ctx_two_left])"
proof -
  have h: "(0::nat) < length [ctx_two_left] \<and> wf_board (board ([ctx_two_left] ! 0))
   \<and> moves ([ctx_two_left] ! 0) = int (occupied (board ([ctx_two_left] ! 0)))
   \<and> empties ([ctx_two_left] ! 0) < 3"
    by (simp add: ctx_two_left_facts)
  from minimax_leaves_context_unchanged[of 3 bot_X "[ctx_two_left]" 0 8] h
  show ?thesis by simp
qed

section \<open>Asking for a move when the game is over\<close>

text \<open>
  C8, as stated, fails. On the full board \<open>ctx_full\<close>, which has no legal move, a bot
  that stored a move in an earlier call returns that move and raises nothing; a bot
  that never stored one raises \<^verbatim>\<open>AttributeError\<close>.
\<close>

theorem predict_move_no_legal_move_counterexample:
  "possible_moves ctx_full = [] \<and> fst (is_game_over ctx_full)
   \<and> predict_move 10 bot_X_moved [ctx_full] 0 = Some (Inr ((2, 2), bot_X_moved, [ctx_full]))
   \<and> predict_move 10 bot_X [ctx_full] 0 = Some (Inl AttributeError)"
proof -
  have g: "is_game_over ([ctx_full] ! 0) = (True, None)" by (simp add: ctx_full_facts)
  have "predict_move 10 bot_X_moved [ctx_full] 0 = Some (Inr ((2, 2), bot_X_moved, [ctx_full]))"
    using minimax_over[OF g, of 9 bot_X_moved "max_depth bot_X_moved"]
    by (simp add: predict_move_def bot_X_moved_def)
  moreover have "predict_move 10 bot_X [ctx_full] 0 = Some (Inl AttributeError)"
    using minimax_over[OF g, of 9 bot_X "max_depth bot_X"]
    by (simp add: predict_move_def bot_X_def)
  ultimately show ?thesis by (simp add: ctx_full_facts)
qed

text \<open>
  C8, amended. For every context on which \<^verbatim>\<open>is_game_over\<close> answers that the game is
  over, \<^verbatim>\<open>predict_move\<close> searches nothing and assigns nothing: it raises
  \<^verbatim>\<open>AttributeError\<close> when the bot has no attribute \<^verbatim>\<open>move\<close> yet, and otherwise
  returns the move an earlier call stored, leaving bot and store as they were. Every
  context with no legal move in which \<^verbatim>\<open>moves\<close> is the number of marks is such a
  context.
\<close>

theorem predict_move_game_over:
  "(fst (is_game_over (h ! a)) \<longrightarrow>
      predict_move (Suc n) self h a =
        (case move self of
           None \<Rightarrow> Some (Inl AttributeError)
         | Some mv \<Rightarrow> Some (Inr (mv, self, h))))
   \<and> (wf_board (board (h ! a)) \<and> moves (h ! a) = int (occupied (board (h ! a)))
        \<and> possible_moves (h ! a) = [] \<longrightarrow> fst (is_game_over (h ! a)))"
proof -
  have 1: "predict_move (Suc n) self h a =
        (case move self of
           None \<Rightarrow> Some (Inl AttributeError)
         | Some mv \<Rightarrow> Some (Inr (mv, self, h)))" if "fst (is_game_over (h ! a))"
  proof -
    from that obtain w where w: "is_game_over (h ! a) = (True, w)"
      by (cases "is_game_over (h ! a)") auto
    show ?thesis unfolding predict_move_def minimax_over[OF w] by simp
  qed
  have 2: "fst (is_game_over (h ! a))"
    if a: "wf_board (board (h ! a)) \<and> moves (h ! a) = int (occupied (board (h ! a)))
        \<and> possible_moves (h ! a) = []"
  proof -
    from a have "counted (h ! a)" by (simp add: counted_def)
    with a show ?thesis using moves_nonempty by blast
  qed
  from 1 2 show ?thesis by blast
qed

text \<open>Both cases on the full board.\<close>

theorem predict_move_game_over_witness:
  "fst (is_game_over ([ctx_full] ! 0))
   \<and> predict_move (Suc 9) bot_X [ctx_full] 0 = Some (Inl AttributeError)
   \<and> predict_move (Suc 9) bot_X_moved [ctx_full] 0 = Some (Inr ((2, 2), bot_X_moved, [ctx_full]))
   \<and> wf_board (board ([ctx_full] ! 0))
   \<and> moves ([ctx_full] ! 0) = int (occupied (board ([ctx_full] ! 0)))
   \<and> possible_moves ([ctx_full] ! 0) = []"
proof -
  have g: "fst (is_game_over ([ctx_full] ! 0))" by (simp add: ctx_full_facts)
  from predict_move_game_over[of "[ctx_full]" 0 9 bot_X]
       predict_move_game_over[of "[ctx_full]" 0 9 bot_X_moved] g
  show ?thesis by (simp add: ctx_full_facts bot_X_def bot_X_moved_def)
qed

section \<open>The search ends\<close>

text \<open>
  C10. On every context in which \<^verbatim>\<open>moves\<close> is the number of marks on the board,
  \<^verbatim>\<open>minimax\<close> returns, for every value of \<open>depth\<close>, as soon as the recursion bound is
  above the number of empty cells, and what it returns is the minimax score, in which
  \<open>depth\<close> plays no part. Every child the loop recurses on has exactly one empty cell
  less than its parent, and \<^verbatim>\<open>moves\<close> is again its number of marks.
\<close>

theorem minimax_terminates:
  assumes "a < length h" "wf_board (board (h ! a))"
    and "moves (h ! a) = int (occupied (board (h ! a)))"
  shows "(\<forall>n depth. empties (h ! a) < n \<longrightarrow>
            (\<exists>self' h'. minimax n self h a depth
                          = Some (Inr (minimax_score (player self) (h ! a), self', h'))))
       \<and> (\<forall>mv \<in> set (possible_moves (h ! a)).
            Suc (empties (apply_move (h ! a) mv)) = empties (h ! a)
            \<and> moves (apply_move (h ! a) mv) = int (occupied (board (apply_move (h ! a) mv))))"
proof -
  from assms have c: "counted (h ! a)" by (simp add: counted_def)
  have 1: "\<exists>self' h'. minimax n self h a depth
                          = Some (Inr (minimax_score (player self) (h ! a), self', h'))"
    if "empties (h ! a) < n" for n depth
    using minimax_correct[OF assms(1) c that, of self depth] by blast
  have 2: "Suc (empties (apply_move (h ! a) mv)) = empties (h ! a)
            \<and> moves (apply_move (h ! a) mv) = int (occupied (board (apply_move (h ! a) mv)))"
    if m: "mv \<in> set (possible_moves (h ! a))" for mv
  proof -
    from c m have "counted (apply_move (h ! a) mv)" by (rule counted_apply_move)
    then have "moves (apply_move (h ! a) mv) = int (occupied (board (apply_move (h ! a) mv)))"
      by (simp add: counted_def)
    with empties_apply_move[OF assms(2) m] show ?thesis by simp
  qed
  from 1 2 show ?thesis by blast
qed

text \<open>From the position with two empty cells, with depth 0 and with a negative depth.\<close>

theorem minimax_terminates_witness:
  "(0::nat) < length [ctx_two_left] \<and> wf_board (board ([ctx_two_left] ! 0))
   \<and> moves ([ctx_two_left] ! 0) = int (occupied (board ([ctx_two_left] ! 0)))
   \<and> empties ([ctx_two_left] ! 0) < 3 \<and> (2, 0) \<in> set (possible_moves ([ctx_two_left] ! 0))
   \<and> (\<exists>self' h'. minimax 3 bot_X [ctx_two_left] 0 0
                    = Some (Inr (minimax_score (player bot_X) ([ctx_two_left] ! 0), self', h')))
   \<and> (\<exists>self' h'. minimax 3 bot_X [ctx_two_left] 0 (- 5)
                    = Some (Inr (minimax_score (player bot_X) ([ctx_two_left] ! 0), self', h')))
   \<and> Suc (empties (apply_move ([ctx_two_left] ! 0) (2, 0))) = empties ([ctx_two_left] ! 0)"
proof -
  have h: "(0::nat) < length [ctx_two_left]" "wf_board (board ([ctx_two_left] ! 0))"
    "moves ([ctx_two_left] ! 0) = int (occupied (board ([ctx_two_left] ! 0)))"
    by (simp_all add: ctx_two_left_facts)
  have e: "empties ([ctx_two_left] ! 0) < 3" "(2, 0) \<in> set (possible_moves ([ctx_two_left] ! 0))"
    by (simp_all add: ctx_two_left_facts)
  from minimax_terminates[OF h, of bot_X] h e show ?thesis by blast
qed

section \<open>At most one winner\<close>

text \<open>
  The contexts of a game as it is played: from the initial one, by updates on empty
  cells, none of them made once the game is over. \<open>play_moves\<close> runs a list of such
  moves and gives nothing when one of them is not allowed.
\<close>

inductive played :: "GameContext \<Rightarrow> bool" where
  played_init: "played GameContext_init"
| played_step:
    "played c \<Longrightarrow> \<not> fst (is_game_over c) \<Longrightarrow> i < 3 \<Longrightarrow> j < 3 \<Longrightarrow> board c ! i ! j = None
       \<Longrightarrow> played (snd (update c (int i) (int j)))"

fun play_moves :: "GameContext \<Rightarrow> (nat \<times> nat) list \<Rightarrow> GameContext option" where
  "play_moves c [] = Some c"
| "play_moves c ((i, j) # ms) =
     (if \<not> fst (is_game_over c) \<and> i < 3 \<and> j < 3 \<and> board c ! i ! j = None
      then play_moves (snd (update c (int i) (int j))) ms
      else None)"

text \<open>
  The checks of \<^verbatim>\<open>is_game_over\<close> made in another order: \<open>ls\<close> lists the lines, the
  first of them that is filled with equal marks decides, and \<^verbatim>\<open>moves\<close> is looked at
  when none is.
\<close>

fun first_complete :: "Board \<Rightarrow> (nat \<times> nat) list list \<Rightarrow> Player option option" where
  "first_complete b [] = None"
| "first_complete b (l # ls) =
     (if filled_equal (map (\<lambda>(i, j). b ! i ! j) l) then Some (map (\<lambda>(i, j). b ! i ! j) l ! 0)
      else first_complete b ls)"

definition is_game_over_order :: "(nat \<times> nat) list list \<Rightarrow> GameContext \<Rightarrow> bool \<times> Player option" where
  "is_game_over_order ls c =
     (case first_complete (board c) ls of
        Some w \<Rightarrow> (True, w)
      | None \<Rightarrow> if moves c = 9 then (True, None) else (False, None))"

text \<open>The position after nine moves in which the last O completes a row and a column.\<close>

definition ctx_double :: GameContext where
  "ctx_double =
     \<lparr> moves = 9,
       board = [[Some Player_O, Some Player_O, Some Player_O],
                [Some Player_O, Some Player_X, Some Player_X],
                [Some Player_O, Some Player_X, Some Player_X]],
       turn = Player_X \<rparr>"

lemma play_moves_played: "played c \<Longrightarrow> play_moves c ms = Some c' \<Longrightarrow> played c'"
proof (induction ms arbitrary: c)
  case Nil
  then show ?case by simp
next
  case (Cons m ms)
  obtain i j where m: "m = (i, j)" by (cases m)
  from Cons.prems(2) have g: "\<not> fst (is_game_over c)" "i < 3" "j < 3" "board c ! i ! j = None"
    and r: "play_moves (snd (update c (int i) (int j))) ms = Some c'"
    unfolding m by (simp_all split: if_splits)
  from Cons.prems(1) g have "played (snd (update c (int i) (int j)))" by (rule played_step)
  then show ?case using r by (rule Cons.IH)
qed

lemma update_cells:
  "i < 3 \<Longrightarrow> j < 3 \<Longrightarrow>
   snd (update \<lparr>moves = m, board = [[a0,a1,a2],[a3,a4,a5],[a6,a7,a8]], turn = t\<rparr> (int i) (int j))
     = \<lparr>moves = m + 1,
        board = [[a0,a1,a2],[a3,a4,a5],[a6,a7,a8]]
                  [i := ([[a0,a1,a2],[a3,a4,a5],[a6,a7,a8]] ! i)[j := Some t]],
        turn = Player_1_minus t\<rparr>"
  by (simp add: update_in_range)

lemma play_double:
  "play_moves GameContext_init
     [(0,1), (1,1), (0,2), (1,2), (1,0), (2,1), (2,0), (2,2), (0,0)] = Some ctx_double"
  using update_cells[of 0 1] update_cells[of 1 1] update_cells[of 0 2] update_cells[of 1 2]
        update_cells[of 1 0] update_cells[of 2 1] update_cells[of 2 0] update_cells[of 2 2]
        update_cells[of 0 0]
  by (simp add: GameContext_init_cells igo_chain filled_equal3 ctx_double_def)

lemma played_counted: "played c \<Longrightarrow> counted c"
  by (induction rule: played.induct) (auto intro: counted_init counted_update)

lemma no_line_init: "\<not> has_line (board GameContext_init) p"
  by (simp add: GameContext_init_cells has_line_cells all3_def)

lemma nth_update_cell:
  assumes "i < length b" "j < length (b ! i)"
  shows "b[i := (b ! i)[j := v]] ! x ! y = (if x = i \<and> y = j then v else b ! x ! y)"
proof (cases "x = i")
  case True
  with assms show ?thesis by (cases "y = j") simp_all
next
  case False
  then show ?thesis by simp
qed

lemma line_won_before:
  assumes "i < length b" "j < length (b ! i)" "p \<noteq> t"
    and "line_won (b[i := (b ! i)[j := Some t]]) p l"
  shows "line_won b p l"
  using assms(3,4) unfolding line_won_def list_all_iff nth_update_cell[OF assms(1,2)]
  by (auto split: if_splits)

lemma has_line_before:
  assumes "i < length b" "j < length (b ! i)" "p \<noteq> t"
    and "has_line (b[i := (b ! i)[j := Some t]]) p"
  shows "has_line b p"
  using assms(4) line_won_before[OF assms(1,2,3)]
  unfolding has_line_def list_ex_iff by blast

lemma played_line_mover:
  assumes "played c" "has_line (board c) p"
  shows "p = Player_1_minus (turn c)"
  using assms
proof (cases rule: played.cases)
  case played_init
  with assms(2) no_line_init show ?thesis by simp
next
  case (played_step c0 i j)
  from played_step(2) have cn: "counted c0" by (rule played_counted)
  then have wf: "wf_board (board c0)" by (simp add: counted_def)
  note u = update_in_range[OF wf played_step(4,5)]
  from wf played_step(4,5) have l: "i < length (board c0)" "j < length (board c0 ! i)"
    by (simp_all add: wf_board_def wf_board_nth)
  have nl: "\<not> has_line (board c0) p"
    using is_game_over_line_winner[OF wf, of p] played_step(3) by auto
  have b: "board c = (board c0)[i := (board c0 ! i)[j := Some (turn c0)]]"
    and t: "turn c = Player_1_minus (turn c0)"
    using played_step(1) u by simp_all
  have "p = turn c0"
  proof (rule ccontr)
    assume "p \<noteq> turn c0"
    with assms(2) have "has_line (board c0) p"
      unfolding b by (intro has_line_before[OF l]) auto
    with nl show False by simp
  qed
  with t show ?thesis by (cases "turn c0") simp_all
qed

lemma filled_equal_loop_all:
  "filled_equal_loop x0 xs \<Longrightarrow> x \<in> set xs \<Longrightarrow> x = x0 \<and> x \<noteq> None"
  by (induction xs) (auto split: if_splits)

lemma filled_equal_line:
  assumes "filled_equal (map (\<lambda>(i, j). b ! i ! j) l)" "l \<noteq> []"
  shows "\<exists>p. map (\<lambda>(i, j). b ! i ! j) l ! 0 = Some p \<and> line_won b p l"
proof -
  let ?xs = "map (\<lambda>(i, j). b ! i ! j) l"
  from assms(2) obtain x0 xs' where xs: "?xs = x0 # xs'" by (cases l) auto
  with assms(1) have fl: "filled_equal_loop x0 ?xs" by (simp add: filled_equal_def)
  have "x0 \<in> set ?xs" unfolding xs by simp
  with fl have "x0 \<noteq> None" using filled_equal_loop_all by blast
  then obtain p where p: "x0 = Some p" by auto
  have "\<forall>x \<in> set ?xs. x = Some p" using fl filled_equal_loop_all p by blast
  then have "line_won b p l" by (auto simp: line_won_def list_all_iff)
  moreover have "?xs ! 0 = Some p" unfolding xs using p by simp
  ultimately show ?thesis by blast
qed

lemma first_complete_None:
  "first_complete b ls = None \<longleftrightarrow> (\<forall>l \<in> set ls. \<not> filled_equal (map (\<lambda>(i, j). b ! i ! j) l))"
  by (induction ls) auto

lemma first_complete_Some:
  "first_complete b ls = Some w \<Longrightarrow>
     \<exists>l \<in> set ls. filled_equal (map (\<lambda>(i, j). b ! i ! j) l) \<and> map (\<lambda>(i, j). b ! i ! j) l ! 0 = w"
  by (induction ls) (auto split: if_splits)

lemma line_cells_nonempty: "l \<in> set line_cells \<Longrightarrow> l \<noteq> []"
  by (auto simp: line_cells_def)

lemma first_complete_order:
  assumes u: "\<And>p q. has_line b p \<Longrightarrow> has_line b q \<Longrightarrow> p = q"
    and "set ls = set line_cells"
  shows "first_complete b ls = first_complete b line_cells"
proof (cases "first_complete b ls")
  case None
  then have "first_complete b line_cells = None"
    unfolding first_complete_None assms(2) .
  with None show ?thesis by simp
next
  case (Some w)
  then obtain l where l: "l \<in> set line_cells" "filled_equal (map (\<lambda>(i, j). b ! i ! j) l)"
      "map (\<lambda>(i, j). b ! i ! j) l ! 0 = w"
    using first_complete_Some assms(2) by blast
  then have "first_complete b line_cells \<noteq> None" unfolding first_complete_None by blast
  then obtain w' where w': "first_complete b line_cells = Some w'" by auto
  then obtain l' where l': "l' \<in> set line_cells" "filled_equal (map (\<lambda>(i, j). b ! i ! j) l')"
      "map (\<lambda>(i, j). b ! i ! j) l' ! 0 = w'"
    using first_complete_Some by blast
  from filled_equal_line[OF l(2) line_cells_nonempty[OF l(1)]] l(3)
  obtain p where p: "w = Some p" "line_won b p l" by auto
  from filled_equal_line[OF l'(2) line_cells_nonempty[OF l'(1)]] l'(3)
  obtain q where q: "w' = Some q" "line_won b q l'" by auto
  from p l(1) have "has_line b p" by (auto simp: has_line_def list_ex_iff)
  moreover from q l'(1) have "has_line b q" by (auto simp: has_line_def list_ex_iff)
  ultimately have "p = q" by (rule u)
  with Some w' p q show ?thesis by simp
qed

lemma is_game_over_order_line_cells:
  assumes "wf_board (board c)"
  shows "is_game_over_order line_cells c = is_game_over c"
  using assms
proof (rule ctx_cellsE)
  fix m t a0 a1 a2 a3 a4 a5 a6 a7 a8
  assume c: "c = \<lparr>moves = m, board = [[a0,a1,a2],[a3,a4,a5],[a6,a7,a8]], turn = t\<rparr>"
  show ?thesis unfolding c igo_chain
    by (simp add: is_game_over_order_def line_cells_def)
qed

lemma ctx_double_played: "played ctx_double"
  using played_init play_double by (rule play_moves_played)

text \<open>
  C6, as stated, fails. The nine moves below are all made on empty cells before the
  game is over, and the last one completes the first row and the first column at
  once: two of the eight lines are complete.
\<close>

theorem one_complete_line_counterexample:
  "play_moves GameContext_init
     [(0,1), (1,1), (0,2), (1,2), (1,0), (2,1), (2,0), (2,2), (0,0)] = Some ctx_double
   \<and> played ctx_double
   \<and> line_cells ! 0 \<noteq> line_cells ! 3
   \<and> line_won (board ctx_double) Player_O (line_cells ! 0)
   \<and> line_won (board ctx_double) Player_O (line_cells ! 3)"
  using ctx_double_played play_double
  by (simp add: line_cells_def line_won_def ctx_double_def)

text \<open>
  C6, amended. In every context of a game as it is played, all complete lines hold the
  mark of one player, so no context has two different winners; and the checks of
  \<^verbatim>\<open>is_game_over\<close> give the same answer in whatever order the eight lines are
  examined.
\<close>

theorem played_single_winner:
  assumes "played c"
  shows "(\<forall>p q. has_line (board c) p \<and> has_line (board c) q \<longrightarrow> p = q)
       \<and> (\<forall>ls. set ls = set line_cells \<longrightarrow> is_game_over_order ls c = is_game_over c)"
proof -
  have u: "p = q" if "has_line (board c) p" "has_line (board c) q" for p q
    using played_line_mover[OF assms that(1)] played_line_mover[OF assms that(2)] by simp
  from assms have wf: "wf_board (board c)" using played_counted by (simp add: counted_def)
  have o: "is_game_over_order ls c = is_game_over c" if "set ls = set line_cells" for ls
  proof -
    have "first_complete (board c) ls = first_complete (board c) line_cells"
      using u that by (rule first_complete_order)
    then have "is_game_over_order ls c = is_game_over_order line_cells c"
      by (simp add: is_game_over_order_def)
    with is_game_over_order_line_cells[OF wf] show ?thesis by simp
  qed
  from u o show ?thesis by blast
qed

text \<open>The position with two complete lines, examined in the reverse order.\<close>

theorem played_single_winner_witness:
  "played ctx_double \<and> has_line (board ctx_double) Player_O
   \<and> \<not> has_line (board ctx_double) Player_X
   \<and> set (rev line_cells) = set line_cells
   \<and> is_game_over_order (rev line_cells) ctx_double = is_game_over ctx_double
   \<and> is_game_over ctx_double = (True, Some Player_O)"
proof -
  have p: "played ctx_double" by (rule ctx_double_played)
  have l: "has_line (board ctx_double) Player_O"
    by (simp add: ctx_double_def has_line_cells all3_def)
  have g: "is_game_over ctx_double = (True, Some Player_O)"
    by (simp add: ctx_double_def igo_chain filled_equal3)
  have r: "set (rev line_cells) = set line_cells" by simp
  from played_single_winner[OF p] have
    1: "\<And>q. has_line (board ctx_double) Player_O \<Longrightarrow> has_line (board ctx_double) q
          \<Longrightarrow> Player_O = q"
    and 2: "set (rev line_cells) = set line_cells
          \<Longrightarrow> is_game_over_order (rev line_cells) ctx_double = is_game_over ctx_double"
    by blast+
  from 1[OF l, of Player_X] have "\<not> has_line (board ctx_double) Player_X" by auto
  with p l g r 2[OF r] show ?thesis by simp
qed

end
